theory Spec2Isabelle
  imports Main "HOL-Library.Word"
begin

section \<open>The pull reader over a push tokenizer (XMLReader.cpp)\<close>

text \<open>
  The file adapts an external streaming tokenizer (expat) to a queue of elements that the
  application pulls one at a time. Two collaborators are not part of the file: the byte
  source \<open>SGS::IStream\<close> and the tokenizer behind \<open>XML_Parse\<close>. The byte source is
  modelled from its contract; the tokenizer is a parameter of every operation.
\<close>

subsection \<open>Elements\<close>

datatype XMLElementKind = kStart | kEnd | kText

text \<open>
  \<open>SGS::XMLElement\<close> is declared in XMLReader.h; the source assigns exactly the three
  members \<open>kind\<close>, \<open>name\<close> and \<open>attributes\<close> (a \<open>std::map\<close> from string to string).
\<close>

record XMLElement =
  kind :: XMLElementKind
  name :: string
  attributes :: "string \<rightharpoonup> string"

text \<open>
  \<open>new SGS::XMLElement\<close>: the strings and the map are default-constructed (empty). The
  enum member is left uninitialised by C++; every callback assigns it before the element
  becomes reachable, so the value chosen here is never observed.
\<close>

definition new_XMLElement :: XMLElement where
  "new_XMLElement = \<lparr>kind = kStart, name = [], attributes = Map.empty\<rparr>"

subsection \<open>The byte source\<close>

text \<open>
  Modelled from the spec: the byte source \<open>SGS::IStream\<close> (Platform/IStream.h), of which
  the source calls \<open>IsEOF\<close>, \<open>CanReadOptimized\<close>, \<open>GetLength\<close>, \<open>ReadOptimized\<close> and
  \<open>Read\<close>. The contract: \<open>isEndOfStream() -> bool\<close>, \<open>read(buffer, maxLength) -> bytesRead\<close>,
  optionally \<open>supportsOptimizedRead()\<close> and \<open>readOptimized(maxLength)\<close> "for zero-copy delivery
  of the whole remaining content in one call".

  \<open>pending\<close> lists what the successive calls \<open>Read(buf, sizeof(buf))\<close> are going to
  deliver, one entry per call (the source decides how many bytes, at most \<open>BUFSIZ\<close>, each
  call returns; an entry may be empty). The stream is at its end when nothing is pending.
\<close>

record IStream =
  pending :: "string list"
  optimized :: bool

definition IStream_IsEOF :: "IStream \<Rightarrow> bool" where
  "IStream_IsEOF s = (pending s = [])"

definition CanReadOptimized :: "IStream \<Rightarrow> bool" where
  "CanReadOptimized s = optimized s"

definition GetLength :: "IStream \<Rightarrow> nat" where
  "GetLength s = length (concat (pending s))"

definition ReadOptimized :: "IStream \<Rightarrow> nat \<Rightarrow> string \<times> IStream" where
  "ReadOptimized s maxLength =
     (let rest = concat (pending s)
      in (take maxLength rest,
          s\<lparr>pending := (if maxLength < length rest then [drop maxLength rest] else [])\<rparr>))"

definition Read :: "IStream \<Rightarrow> string \<times> IStream" where
  "Read s = (case pending s of
               [] \<Rightarrow> ([], s)
             | c # cs \<Rightarrow> (c, s\<lparr>pending := cs\<rparr>))"

subsection \<open>The tokenizer\<close>

text \<open>
  What the tokenizer tells the reader during one call of \<open>XML_Parse\<close>: the handlers it
  invokes, in order. The attribute array of a start tag (name, value, name, value, ...,
  NULL) is the list of its name/value pairs.
\<close>

datatype XMLEvent =
    StartElementEv string "(string \<times> string) list"
  | EndElementEv string
  | CharacterDataEv string

datatype XML_Status = XML_STATUS_ERROR | XML_STATUS_OK

text \<open>
  The library is a parameter: \<open>XML_Parse p data len isFinal\<close> gives the handler calls made
  during the call, the status, and the parser afterwards; \<open>XML_ErrorText p\<close> stands for
  \<open>XML_ErrorString(XML_GetErrorCode(p))\<close>.
\<close>

record 'p expat =
  XML_Parse :: "'p \<Rightarrow> string \<Rightarrow> int \<Rightarrow> bool \<Rightarrow> XMLEvent list \<times> XML_Status \<times> 'p"
  XML_ErrorText :: "'p \<Rightarrow> string"

text \<open>The cast \<open>(int)length\<close> of a \<open>size_t\<close>: the low 32 bits, read as two's complement.\<close>

definition int_cast :: "nat \<Rightarrow> int" where
  "int_cast n = sint (word_of_nat n :: 32 word)"

subsection \<open>Outcomes\<close>

text \<open>
  \<open>class xml_error : public std::exception\<close> has no member, and its constructor
  \<open>xml_error(const wchar_t* /*what*/) { }\<close> ignores its argument: the exception object is
  the same whatever text it is constructed from. Dereferencing a null pointer and
  \<open>front()\<close> of an empty list are undefined behaviour; the model stops there.
\<close>

datatype exn = xml_error | undefined_behaviour

definition new_xml_error :: "string \<Rightarrow> exn" where
  "new_xml_error what = xml_error"

datatype 'a outcome = Returns 'a | Throws exn

subsection \<open>The reader and the free store\<close>

text \<open>
  The state is the reader object together with what it points to: the stream behind
  \<open>mpStream\<close> (\<open>None\<close> is the null pointer), the parser behind \<open>mParser\<close>, and the
  free store holding the elements made by \<open>new\<close>; \<open>mElements\<close> and
  \<open>mpCurrentElement\<close> hold addresses. \<open>lim\<close> is the next address \<open>new\<close> hands out.
\<close>

type_synonym addr = nat

record 'p XMLReader =
  mpStream :: "IStream option"
  mParser :: "'p option"
  mpCurrentElement :: "addr option"
  mElements :: "addr list"
  store :: "addr \<rightharpoonup> XMLElement"
  lim :: addr

text \<open>The constructor; \<open>created\<close> is what \<open>XML_ParserCreate(NULL)\<close> returned.\<close>

definition XMLReader_new :: "'p option \<Rightarrow> IStream option \<Rightarrow> 'p XMLReader" where
  "XMLReader_new created pStream =
     \<lparr>mpStream = pStream, mParser = created, mpCurrentElement = None,
      mElements = [], store = Map.empty, lim = 0\<rparr>"

text \<open>
  \<open>new\<close> puts an element at the next address; \<open>delete p\<close> frees what \<open>p\<close> points to
  and does nothing for the null pointer; \<open>mElements.push_back(p)\<close> appends an address.
\<close>

definition alloc :: "XMLElement \<Rightarrow> 'p XMLReader \<Rightarrow> addr \<times> 'p XMLReader" where
  "alloc e r = (lim r, r\<lparr>store := (store r)(lim r \<mapsto> e), lim := Suc (lim r)\<rparr>)"

definition delete :: "addr option \<Rightarrow> 'p XMLReader \<Rightarrow> 'p XMLReader" where
  "delete p r = (case p of None \<Rightarrow> r | Some a \<Rightarrow> r\<lparr>store := (store r)(a := None)\<rparr>)"

definition push_back :: "addr \<Rightarrow> 'p XMLReader \<Rightarrow> 'p XMLReader" where
  "push_back a r = r\<lparr>mElements := mElements r @ [a]\<rparr>"

subsection \<open>The handlers (SGS::Internal::XMLAdapter)\<close>

text \<open>
  Each handler makes a new element, assigns \<open>kind\<close> and \<open>name\<close> (the text handler
  assigns the delivered span to \<open>name\<close>), and appends it to the queue of the reader
  passed as \<open>userData\<close>. The start handler runs through the attribute array with
  \<open>pElement->attributes[key] = value\<close>: a later pair with the same key overwrites an
  earlier one. The element is written before anything else can see it, so the model builds
  its value first and allocates it then.
\<close>

definition set_attribute :: "string \<times> string \<Rightarrow> XMLElement \<Rightarrow> XMLElement" where
  "set_attribute kv e = e\<lparr>attributes := (attributes e)(fst kv \<mapsto> snd kv)\<rparr>"

definition OnStartElement ::
  "'p XMLReader \<Rightarrow> string \<Rightarrow> (string \<times> string) list \<Rightarrow> 'p XMLReader" where
  "OnStartElement userData nm atts =
     (let pElement = fold set_attribute atts (new_XMLElement\<lparr>kind := kStart, name := nm\<rparr>);
          (a, pThis) = alloc pElement userData
      in push_back a pThis)"

definition OnEndElement :: "'p XMLReader \<Rightarrow> string \<Rightarrow> 'p XMLReader" where
  "OnEndElement userData nm =
     (let pElement = new_XMLElement\<lparr>kind := kEnd, name := nm\<rparr>;
          (a, pThis) = alloc pElement userData
      in push_back a pThis)"

definition OnCharacterData :: "'p XMLReader \<Rightarrow> string \<Rightarrow> 'p XMLReader" where
  "OnCharacterData userData s =
     (let pElement = new_XMLElement\<lparr>kind := kText, name := s\<rparr>;
          (a, pThis) = alloc pElement userData
      in push_back a pThis)"

fun handler :: "'p XMLReader \<Rightarrow> XMLEvent \<Rightarrow> 'p XMLReader" where
  "handler r (StartElementEv nm atts) = OnStartElement r nm atts"
| "handler r (EndElementEv nm) = OnEndElement r nm"
| "handler r (CharacterDataEv s) = OnCharacterData r s"

definition handlers :: "XMLEvent list \<Rightarrow> 'p XMLReader \<Rightarrow> 'p XMLReader" where
  "handlers evs r = foldl handler r evs"

subsection \<open>Parse, IsEOF, ReadElement\<close>

text \<open>
  One pass through the body of the loop of \<open>Parse\<close>, entered with a stream \<open>s\<close> that is
  not at its end: read a chunk, ask the stream whether that was the last one, feed the
  tokenizer, whose handlers run during the call, and throw if it reports an error.
  \<open>ReadElement\<close> does not check \<open>mParser\<close> (its assertions are commented out); feeding
  a null parser is undefined behaviour here.
\<close>

definition Parse_body :: "'p expat \<Rightarrow> IStream \<Rightarrow> 'p XMLReader \<Rightarrow> unit outcome \<times> 'p XMLReader" where
  "Parse_body lib s r =
     (let (data, s') = (if CanReadOptimized s then ReadOptimized s (GetLength s) else Read s);
          done = IStream_IsEOF s';
          r1 = r\<lparr>mpStream := Some s'\<rparr>
      in case mParser r1 of
           None \<Rightarrow> (Throws undefined_behaviour, r1)
         | Some p \<Rightarrow>
             (let (evs, status, p') = XML_Parse lib p data (int_cast (length data)) done;
                  r2 = handlers evs (r1\<lparr>mParser := Some p'\<rparr>)
              in if status = XML_STATUS_ERROR
                 then (Throws (new_xml_error (XML_ErrorText lib p')), r2)
                 else (Returns (), r2)))"

definition npending :: "'p XMLReader \<Rightarrow> nat" where
  "npending r = (case mpStream r of None \<Rightarrow> 0 | Some s \<Rightarrow> length (pending s))"

lemma mpStream_handler: "mpStream (handler r ev) = mpStream r"
  by (cases ev)
     (simp_all add: OnStartElement_def OnEndElement_def OnCharacterData_def alloc_def
        push_back_def Let_def)

lemma mpStream_handlers: "mpStream (handlers evs r) = mpStream r"
  unfolding handlers_def by (induction evs arbitrary: r) (simp_all add: mpStream_handler)

lemma Parse_body_npending:
  assumes "\<not> IStream_IsEOF s" and "Parse_body lib s r = (x, r')"
  shows "npending r' < length (pending s)"
proof -
  obtain data s' where rd:
    "(if CanReadOptimized s then ReadOptimized s (GetLength s) else Read s) = (data, s')"
    by (cases "if CanReadOptimized s then ReadOptimized s (GetLength s) else Read s") blast
  have less: "length (pending s') < length (pending s)"
    using rd assms(1)
    by (auto simp: IStream_IsEOF_def ReadOptimized_def GetLength_def Read_def Let_def
             split: if_splits list.splits)
  have "mpStream r' = Some s'"
    using assms(2) rd
    by (auto simp: Parse_body_def Let_def mpStream_handlers split: option.splits prod.splits if_splits)
  then show ?thesis using less by (simp add: npending_def)
qed

text \<open>
  The loop \<open>while (mElements.empty() && !mpStream->IsEOF())\<close>: the stream is asked only
  when the queue is empty. Every pass takes a pending chunk from the stream, which is why
  the loop ends.
\<close>

function Parse :: "'p expat \<Rightarrow> 'p XMLReader \<Rightarrow> unit outcome \<times> 'p XMLReader" where
  "Parse lib r =
     (if mElements r \<noteq> [] then (Returns (), r)
      else case mpStream r of
             None \<Rightarrow> (Throws undefined_behaviour, r)
           | Some s \<Rightarrow>
               if IStream_IsEOF s then (Returns (), r)
               else (case Parse_body lib s r of
                       (Throws e, r') \<Rightarrow> (Throws e, r')
                     | (Returns u, r') \<Rightarrow> Parse lib r'))"
  by pat_completeness auto
termination
  apply (relation "measure (\<lambda>(lib, r). npending r)")
   apply simp
  apply (auto simp: npending_def dest!: Parse_body_npending [OF _ sym])
  done

declare Parse.simps [simp del]

definition IsEOF :: "'p expat \<Rightarrow> 'p XMLReader \<Rightarrow> bool outcome \<times> 'p XMLReader" where
  "IsEOF lib r =
     (if mParser r = None \<or> mpStream r = None then (Returns True, r)
      else case Parse lib r of
             (Throws e, r') \<Rightarrow> (Throws e, r')
           | (Returns u, r') \<Rightarrow> (Returns (mElements r' = []), r'))"

text \<open>
  \<open>ReadElement\<close> returns a reference to the element now held in \<open>mpCurrentElement\<close>: its
  address, which the caller reads in the store of the state returned with it.
\<close>

definition ReadElement :: "'p expat \<Rightarrow> 'p XMLReader \<Rightarrow> addr outcome \<times> 'p XMLReader" where
  "ReadElement lib r =
     (case Parse lib r of
        (Throws e, r') \<Rightarrow> (Throws e, r')
      | (Returns u, r1) \<Rightarrow>
          (let r2 = delete (mpCurrentElement r1) r1
           in case mElements r2 of
                [] \<Rightarrow> (Throws undefined_behaviour, r2)
              | a # rest \<Rightarrow> (Returns a, r2\<lparr>mpCurrentElement := Some a, mElements := rest\<rparr>)))"

text \<open>
  The spec's \<open>hasMore()\<close> is the negation of \<open>IsEOF\<close>.
\<close>

definition hasMore :: "'p expat \<Rightarrow> 'p XMLReader \<Rightarrow> bool outcome \<times> 'p XMLReader" where
  "hasMore lib r =
     (case IsEOF lib r of
        (Throws e, r') \<Rightarrow> (Throws e, r')
      | (Returns b, r') \<Rightarrow> (Returns (\<not> b), r'))"

section \<open>Notions for the statements\<close>

subsection \<open>Elements, ownership, input\<close>

text \<open>The element a handler stores at the address it allocates.\<close>

fun element_of :: "XMLEvent \<Rightarrow> XMLElement" where
  "element_of (StartElementEv nm atts) =
     fold set_attribute atts (new_XMLElement\<lparr>kind := kStart, name := nm\<rparr>)"
| "element_of (EndElementEv nm) = new_XMLElement\<lparr>kind := kEnd, name := nm\<rparr>"
| "element_of (CharacterDataEv s) = new_XMLElement\<lparr>kind := kText, name := s\<rparr>"

text \<open>
  Every allocated element is held exactly once, by the queue or by \<open>mpCurrentElement\<close>,
  and \<open>new\<close> never hands out an address that is in use. The constructor establishes
  this, and the handlers, \<open>Parse\<close>, \<open>IsEOF\<close> and \<open>ReadElement\<close> keep it (the last
  unless it takes the front of an empty queue), as is proved below.
\<close>

definition wf_reader :: "'p XMLReader \<Rightarrow> bool" where
  "wf_reader r \<longleftrightarrow>
     distinct (mElements r) \<and>
     dom (store r) = set (mElements r) \<union> set_option (mpCurrentElement r) \<and>
     set_option (mpCurrentElement r) \<inter> set (mElements r) = {} \<and>
     (\<forall>a \<in> dom (store r). a < lim r)"

definition all_input_consumed :: "'p XMLReader \<Rightarrow> bool" where
  "all_input_consumed r = (case mpStream r of None \<Rightarrow> True | Some s \<Rightarrow> IStream_IsEOF s)"

text \<open>
  An element as the handlers leave it: one of the three kinds, and with attributes only
  if it is a start tag. (The member \<open>name\<close> is used by all three kinds.)
\<close>

definition tidy :: "XMLElement \<Rightarrow> bool" where
  "tidy e \<longleftrightarrow>
     (kind e = kStart \<or> kind e = kEnd \<or> kind e = kText) \<and>
     (case kind e of kStart \<Rightarrow> True | kEnd \<Rightarrow> attributes e = Map.empty
      | kText \<Rightarrow> attributes e = Map.empty)"

definition tidy_store :: "'p XMLReader \<Rightarrow> bool" where
  "tidy_store r \<longleftrightarrow> (\<forall>e \<in> ran (store r). tidy e)"

subsection \<open>The tokenizer on its own\<close>

text \<open>
  The chunks the successive reads of \<open>Parse\<close> take from a stream: the pending chunks one
  by one, or with optimized reads everything that is left, at once.
\<close>

definition chunks_read :: "IStream \<Rightarrow> string list" where
  "chunks_read s =
     (if optimized s then (if pending s = [] then [] else [concat (pending s)])
      else pending s)"

text \<open>
  The tokenizer on its own: fed the chunks in order, each with its length, the last one
  with the final flag; it gives the handler calls of all the calls, and the status of the
  last call made (it stops at the first error).
\<close>

fun tokenize :: "'p expat \<Rightarrow> 'p \<Rightarrow> string list \<Rightarrow> XMLEvent list \<times> XML_Status" where
  "tokenize lib p [] = ([], XML_STATUS_OK)"
| "tokenize lib p (c # cs) =
     (case XML_Parse lib p c (int (length c)) (cs = []) of
        (evs, status, p') \<Rightarrow>
          if status = XML_STATUS_ERROR then (evs, XML_STATUS_ERROR)
          else (case tokenize lib p' cs of (evs', status') \<Rightarrow> (evs @ evs', status')))"






subsection \<open>Sequences of calls\<close>





subsection \<open>A small tokenizer for the examples\<close>

text \<open>
  The theorems below hold for every tokenizer. Their examples need one that runs: this is
  a tokenizer for a fragment of XML (elements, attributes in double quotes, empty-element
  tags, character data; no entities, comments or declarations) that behaves on that
  fragment as the library does: handlers are called as soon as a token is complete,
  character data is reported up to the end of each chunk, an error is reported at the
  token that reveals it, after the handler calls for the tokens before it, and once
  reported it is reported again by every later call. A call with a negative length is
  refused with an error of its own, which is not permanent: the parser is otherwise left
  as it was.
\<close>

record tiny_parser =
  markup :: "string option"
  chardata :: string
  opened :: "string list"
  root_seen :: bool
  failure :: "string option"
  bad_argument :: bool
  emitted :: "XMLEvent list"

definition tiny_parser_new :: tiny_parser where
  "tiny_parser_new =
     \<lparr>markup = None, chardata = [], opened = [], root_seen = False, failure = None,
      bad_argument = False, emitted = []\<rparr>"

definition tiny_fail :: "string \<Rightarrow> tiny_parser \<Rightarrow> tiny_parser" where
  "tiny_fail msg p = p\<lparr>failure := Some msg\<rparr>"

definition tiny_emit :: "XMLEvent \<Rightarrow> tiny_parser \<Rightarrow> tiny_parser" where
  "tiny_emit ev p = p\<lparr>emitted := emitted p @ [ev]\<rparr>"

datatype att_mode = Gap | Key | Eq | Val

fun scan_atts :: "att_mode \<Rightarrow> string \<Rightarrow> string \<Rightarrow> string \<Rightarrow> (string \<times> string) list" where
  "scan_atts m k v [] = []"
| "scan_atts Gap k v (c # cs) =
     (if c = CHR '' '' then scan_atts Gap [] [] cs else scan_atts Key [c] [] cs)"
| "scan_atts Key k v (c # cs) =
     (if c = CHR ''='' then scan_atts Eq k [] cs else scan_atts Key (k @ [c]) [] cs)"
| "scan_atts Eq k v (c # cs) =
     (if c = CHR 0x22 then scan_atts Val k [] cs else scan_atts Eq k [] cs)"
| "scan_atts Val k v (c # cs) =
     (if c = CHR 0x22 then (k, v) # scan_atts Gap [] [] cs else scan_atts Val k (v @ [c]) cs)"

definition tiny_flush :: "tiny_parser \<Rightarrow> tiny_parser" where
  "tiny_flush p =
     (if chardata p = [] then p
      else if opened p = [] then
        (if list_all (\<lambda>c. c = CHR '' '' \<or> c = CHR 0x0A) (chardata p) then p\<lparr>chardata := []\<rparr>
         else tiny_fail (if root_seen p then ''junk after document element''
                         else ''syntax error'') p)
      else tiny_emit (CharacterDataEv (chardata p)) (p\<lparr>chardata := []\<rparr>))"

definition tiny_tag :: "string \<Rightarrow> tiny_parser \<Rightarrow> tiny_parser" where
  "tiny_tag content p =
     (case content of
        [] \<Rightarrow> tiny_fail ''not well-formed (invalid token)'' p
      | c # rest \<Rightarrow>
          if c = CHR ''/'' then
            (case opened p of
               [] \<Rightarrow> tiny_fail ''not well-formed (invalid token)'' p
             | n # ns \<Rightarrow>
                 if n = rest then tiny_emit (EndElementEv rest) (p\<lparr>opened := ns\<rparr>)
                 else tiny_fail ''mismatched tag'' p)
          else if opened p = [] \<and> root_seen p then tiny_fail ''junk after document element'' p
          else
            (let empty_tag = (last content = CHR ''/'');
                 body = (if empty_tag then butlast content else content);
                 nm = takeWhile (\<lambda>c. c \<noteq> CHR '' '') body;
                 atts = scan_atts Gap [] [] (dropWhile (\<lambda>c. c \<noteq> CHR '' '') body)
             in if \<not> distinct (map fst atts) then tiny_fail ''duplicate attribute'' p
                else
                  (let p1 = tiny_emit (StartElementEv nm atts) (p\<lparr>root_seen := True\<rparr>)
                   in if empty_tag then tiny_emit (EndElementEv nm) p1
                      else p1\<lparr>opened := nm # opened p\<rparr>)))"

definition tiny_step :: "tiny_parser \<Rightarrow> char \<Rightarrow> tiny_parser" where
  "tiny_step p c =
     (if failure p \<noteq> None then p
      else case markup p of
             Some m \<Rightarrow>
               if c = CHR ''>'' then tiny_tag m (p\<lparr>markup := None\<rparr>)
               else p\<lparr>markup := Some (m @ [c])\<rparr>
           | None \<Rightarrow>
               if c = CHR ''<'' then (tiny_flush p)\<lparr>markup := Some []\<rparr>
               else p\<lparr>chardata := chardata p @ [c]\<rparr>)"

definition tiny_finish :: "tiny_parser \<Rightarrow> tiny_parser" where
  "tiny_finish p =
     (if failure p \<noteq> None then p
      else if markup p \<noteq> None then tiny_fail ''unclosed token'' p
      else if opened p \<noteq> [] \<or> \<not> root_seen p then tiny_fail ''no element found'' p
      else p)"

definition tiny_XML_Parse ::
  "tiny_parser \<Rightarrow> string \<Rightarrow> int \<Rightarrow> bool \<Rightarrow> XMLEvent list \<times> XML_Status \<times> tiny_parser" where
  "tiny_XML_Parse p data len isFinal =
     (if len < 0 then ([], XML_STATUS_ERROR, p\<lparr>bad_argument := True\<rparr>)
      else if failure p \<noteq> None then ([], XML_STATUS_ERROR, p\<lparr>bad_argument := False\<rparr>)
      else
        (let p1 = tiny_flush
                    (foldl tiny_step (p\<lparr>bad_argument := False\<rparr>) (take (nat len) data));
             p2 = (if isFinal then tiny_finish p1 else p1)
         in (emitted p2,
             (if failure p2 = None then XML_STATUS_OK else XML_STATUS_ERROR),
             p2\<lparr>emitted := []\<rparr>)))"

definition tiny_expat :: "tiny_parser expat" where
  "tiny_expat =
     \<lparr>XML_Parse = tiny_XML_Parse,
      XML_ErrorText =
        (\<lambda>p. if bad_argument p then ''invalid argument''
             else case failure p of None \<Rightarrow> [] | Some msg \<Rightarrow> msg)\<rparr>"

subsection \<open>Example states\<close>

text \<open>A well-formed document and one with a mismatched end tag.\<close>

definition doc :: string where
  \<open>doc = ''<a x="1"><b/>hello</a>''\<close>

definition malformed_doc :: string where
  "malformed_doc = ''<a><b></a>''"

text \<open>The handler calls for the document when it arrives in one chunk.\<close>

definition doc_events :: "XMLEvent list" where
  "doc_events =
     [StartElementEv ''a'' [(''x'', ''1'')], StartElementEv ''b'' [], EndElementEv ''b'',
      CharacterDataEv ''hello'', EndElementEv ''a'']"

definition doc_stream :: "bool \<Rightarrow> IStream" where
  "doc_stream fast = \<lparr>pending = [doc], optimized = fast\<rparr>"

definition doc_reader :: "bool \<Rightarrow> tiny_parser XMLReader" where
  "doc_reader fast =
     XMLReader_new (Some tiny_parser_new) (Some \<lparr>pending = [doc], optimized = fast\<rparr>)"

definition malformed_reader :: "tiny_parser XMLReader" where
  "malformed_reader =
     XMLReader_new (Some tiny_parser_new) (Some \<lparr>pending = [malformed_doc], optimized = False\<rparr>)"

text \<open>The reader whose \<open>XML_ParserCreate\<close> returned null, over a stream with input.\<close>

definition parserless_reader :: "tiny_parser XMLReader" where
  "parserless_reader = XMLReader_new None (Some \<lparr>pending = [doc], optimized = False\<rparr>)"

text \<open>The reader over the document, after its first parse step and after its first element.\<close>

definition parsed_doc_reader :: "tiny_parser XMLReader" where
  "parsed_doc_reader = snd (Parse tiny_expat (doc_reader False))"

definition started_doc_reader :: "tiny_parser XMLReader" where
  "started_doc_reader = snd (ReadElement tiny_expat (doc_reader False))"




text \<open>
  A well-formed document of exactly \<open>2^31\<close> bytes, \<open><a>xxx...x</a>\<close>, as a stream
  delivers it in \<open>2^23\<close> reads of 256 bytes each; the same stream read optimized gives it
  in one chunk. \<open>big_events\<close> are the handler calls for the 256-byte chunks.
\<close>

definition filler :: "nat \<Rightarrow> string" where
  "filler n = replicate n (CHR ''x'')"

definition many :: nat where
  "many = 2 ^ 23 - 2"

definition big_chunks :: "string list" where
  "big_chunks = (''<a>'' @ filler 253) # replicate many (filler 256) @ [filler 252 @ ''</a>'']"

definition big_stream :: "bool \<Rightarrow> IStream" where
  "big_stream fast = \<lparr>pending = big_chunks, optimized = fast\<rparr>"

definition big_events :: "XMLEvent list" where
  "big_events =
     [StartElementEv ''a'' [], CharacterDataEv (filler 253)] @
     replicate many (CharacterDataEv (filler 256)) @
     [CharacterDataEv (filler 252), EndElementEv ''a'']"

text \<open>The small tokenizer inside the element \<open>a\<close>, between two chunks.\<close>

definition inside_a :: tiny_parser where
  "inside_a = tiny_parser_new\<lparr>opened := [''a''], root_seen := True\<rparr>"

text \<open>The defining equations that running an example unfolds.\<close>

lemmas tiny_defs = tiny_expat_def tiny_XML_Parse_def tiny_parser_new_def tiny_step_def
  tiny_flush_def tiny_tag_def tiny_finish_def tiny_emit_def tiny_fail_def

lemmas stream_defs = IStream_IsEOF_def CanReadOptimized_def GetLength_def ReadOptimized_def
  Read_def

lemmas reader_defs = XMLReader_new_def Parse_body_def handlers_def OnStartElement_def
  OnEndElement_def OnCharacterData_def alloc_def push_back_def delete_def new_xml_error_def
  new_XMLElement_def set_attribute_def int_cast_def Let_def

section \<open>Properties\<close>

subsection \<open>What a handler does to the state\<close>

lemma handler_eq:
  "handler r ev =
     r\<lparr>mElements := mElements r @ [lim r], store := (store r)(lim r \<mapsto> element_of ev),
       lim := Suc (lim r)\<rparr>"
  by (cases ev)
     (simp_all add: OnStartElement_def OnEndElement_def OnCharacterData_def alloc_def
        push_back_def Let_def)

lemma handlers_Nil: "handlers [] r = r"
  by (simp add: handlers_def)

lemma handlers_Cons: "handlers (ev # evs) r = handlers evs (handler r ev)"
  by (simp add: handlers_def)

lemma mParser_handlers: "mParser (handlers evs r) = mParser r"
  by (induction evs arbitrary: r) (simp_all add: handlers_Nil handlers_Cons handler_eq)

lemma mpCurrentElement_handlers: "mpCurrentElement (handlers evs r) = mpCurrentElement r"
  by (induction evs arbitrary: r) (simp_all add: handlers_Nil handlers_Cons handler_eq)

lemma lim_handlers: "lim (handlers evs r) = lim r + length evs"
  by (induction evs arbitrary: r) (simp_all add: handlers_Nil handlers_Cons handler_eq)

lemma mElements_handlers:
  "mElements (handlers evs r) = mElements r @ [lim r ..< lim r + length evs]"
proof (induction evs arbitrary: r)
  case Nil
  show ?case by (simp add: handlers_Nil)
next
  case (Cons ev evs)
  have "[lim r ..< Suc (lim r + length evs)] = lim r # [Suc (lim r) ..< Suc (lim r + length evs)]"
    by (rule upt_conv_Cons) simp
  then show ?case
    by (simp add: handlers_Cons Cons.IH handler_eq)
qed

lemma store_handlers:
  "store (handlers evs r) a =
     (if lim r \<le> a \<and> a < lim r + length evs then Some (element_of (evs ! (a - lim r)))
      else store r a)"
proof (induction evs arbitrary: r)
  case Nil
  show ?case by (auto simp: handlers_Nil)
next
  case (Cons ev evs)
  show ?case
    unfolding handlers_Cons Cons.IH
    by (auto simp: handler_eq nth_Cons' Suc_diff_Suc)
qed

lemma fold_set_attribute_kind: "kind (fold set_attribute atts e) = kind e"
  by (induction atts arbitrary: e) (simp_all add: set_attribute_def)

lemma fold_set_attribute_name: "name (fold set_attribute atts e) = name e"
  by (induction atts arbitrary: e) (simp_all add: set_attribute_def)

lemma fold_set_attribute_attributes:
  "attributes (fold set_attribute atts e) = attributes e ++ map_of (rev atts)"
proof (induction atts arbitrary: e)
  case Nil
  show ?case by simp
next
  case (Cons kv atts)
  have "attributes (set_attribute kv e) = attributes e ++ map_of [kv]"
    by (cases kv) (simp add: set_attribute_def)
  then show ?case
    by (simp add: Cons.IH map_add_assoc del: map_of.simps)
qed

subsection \<open>Ownership: who holds which address\<close>

lemma wf_reader_new: "wf_reader (XMLReader_new created pStream)"
  by (simp add: wf_reader_def XMLReader_new_def)

lemma dom_store_handlers:
  "dom (store (handlers evs r)) = dom (store r) \<union> {lim r ..< lim r + length evs}"
  by (auto simp: store_handlers dom_def)

lemma wf_reader_handlers:
  assumes "wf_reader r"
  shows "wf_reader (handlers evs r)"
proof -
  have q: "a < lim r" if "a \<in> set (mElements r)" for a
    using assms that by (auto simp: wf_reader_def)
  have c: "a < lim r" if "mpCurrentElement r = Some a" for a
    using assms that by (auto simp: wf_reader_def)
  have "distinct (mElements r @ [lim r ..< lim r + length evs])"
    using assms by (auto simp: wf_reader_def dest: q)
  moreover have "set_option (mpCurrentElement r) \<inter> {lim r ..< lim r + length evs} = {}"
    by (auto dest: c)
  ultimately show ?thesis
    using assms
    by (auto simp: wf_reader_def mElements_handlers dom_store_handlers
          mpCurrentElement_handlers lim_handlers dest: q c intro: trans_less_add1)
qed

lemma wf_reader_mpStream [simp]: "wf_reader (r\<lparr>mpStream := x\<rparr>) = wf_reader r"
  by (simp add: wf_reader_def)

lemma wf_reader_mParser [simp]: "wf_reader (r\<lparr>mParser := x\<rparr>) = wf_reader r"
  by (simp add: wf_reader_def)

subsection \<open>The loop of Parse\<close>

lemma Parse_nonempty: "mElements r \<noteq> [] \<Longrightarrow> Parse lib r = (Returns (), r)"
  by (simp add: Parse.simps)

lemma Parse_at_end:
  "mpStream r = Some s \<Longrightarrow> IStream_IsEOF s \<Longrightarrow> Parse lib r = (Returns (), r)"
  by (simp add: Parse.simps)

lemma Parse_step:
  "mElements r = [] \<Longrightarrow> mpStream r = Some s \<Longrightarrow> \<not> IStream_IsEOF s \<Longrightarrow>
   Parse lib r = (case Parse_body lib s r of
                    (Throws e, r') \<Rightarrow> (Throws e, r')
                  | (Returns u, r') \<Rightarrow> Parse lib r')"
  by (simp add: Parse.simps)

text \<open>
  Induction along the iterations of the loop: \<open>P r res\<close> relates the state \<open>r\<close> in
  which \<open>Parse\<close> is entered to what it returns.
\<close>

lemma Parse_loop_induct [case_names nonempty null at_end throws continues]:
  assumes nonempty: "\<And>r. mElements r \<noteq> [] \<Longrightarrow> P r (Returns (), r)"
    and null: "\<And>r. mElements r = [] \<Longrightarrow> mpStream r = None \<Longrightarrow>
           P r (Throws undefined_behaviour, r)"
    and at_end: "\<And>r s. mElements r = [] \<Longrightarrow> mpStream r = Some s \<Longrightarrow> IStream_IsEOF s \<Longrightarrow>
           P r (Returns (), r)"
    and throws: "\<And>r s e r'. mElements r = [] \<Longrightarrow> mpStream r = Some s \<Longrightarrow>
           \<not> IStream_IsEOF s \<Longrightarrow> Parse_body lib s r = (Throws e, r') \<Longrightarrow> P r (Throws e, r')"
    and continues: "\<And>r s u r'. mElements r = [] \<Longrightarrow> mpStream r = Some s \<Longrightarrow>
           \<not> IStream_IsEOF s \<Longrightarrow> Parse_body lib s r = (Returns u, r') \<Longrightarrow>
           P r' (Parse lib r') \<Longrightarrow> P r (Parse lib r')"
  shows "P r (Parse lib r)"
  using assms
proof (induction lib r rule: Parse.induct)
  case (1 lib r)
  show ?case
  proof (cases "mElements r \<noteq> []")
    case True
    then show ?thesis using "1.prems"(1) by (simp add: Parse_nonempty)
  next
    case empty: False
    show ?thesis
    proof (cases "mpStream r")
      case None
      then show ?thesis using empty "1.prems"(2) by (simp add: Parse.simps)
    next
      case (Some s)
      show ?thesis
      proof (cases "IStream_IsEOF s")
        case True
        then show ?thesis using Some empty "1.prems"(3) by (simp add: Parse_at_end)
      next
        case False
        obtain x r' where body: "Parse_body lib s r = (x, r')"
          by (cases "Parse_body lib s r") blast
        show ?thesis
        proof (cases x)
          case (Throws e)
          then show ?thesis
            using empty Some False body "1.prems"(4) [of r s e r'] by (simp add: Parse_step)
        next
          case (Returns u)
          have "P r' (Parse lib r')"
            by (rule "1.IH" [OF empty Some False body [symmetric] Returns "1.prems"])
          then show ?thesis
            using empty Some False body Returns "1.prems"(5) [of r s u r']
            by (simp add: Parse_step)
        qed
      qed
    qed
  qed
qed

subsection \<open>One pass through the loop body\<close>

lemma Parse_body_cases:
  assumes "Parse_body lib s r = (x, r')"
  obtains (null_parser) s' where "mParser r = None" "x = Throws undefined_behaviour"
      "r' = r\<lparr>mpStream := Some s'\<rparr>"
  | (fed) p data s' evs status p' where "mParser r = Some p"
      "(if CanReadOptimized s then ReadOptimized s (GetLength s) else Read s) = (data, s')"
      "XML_Parse lib p data (int_cast (length data)) (IStream_IsEOF s') = (evs, status, p')"
      "r' = handlers evs (r\<lparr>mpStream := Some s', mParser := Some p'\<rparr>)"
      "x = (if status = XML_STATUS_ERROR then Throws xml_error else Returns ())"
proof -
  obtain data s' where rd:
    "(if CanReadOptimized s then ReadOptimized s (GetLength s) else Read s) = (data, s')"
    by (cases "if CanReadOptimized s then ReadOptimized s (GetLength s) else Read s") blast
  show thesis
  proof (cases "mParser r")
    case None
    then show ?thesis
      using assms rd null_parser [of s'] by (auto simp: Parse_body_def Let_def split: if_splits)
  next
    case (Some p)
    obtain evs status p' where tk:
      "XML_Parse lib p data (int_cast (length data)) (IStream_IsEOF s') = (evs, status, p')"
      by (cases "XML_Parse lib p data (int_cast (length data)) (IStream_IsEOF s')") blast
    show ?thesis
      using assms rd Some tk fed [of p data s' evs status p']
      by (auto simp: Parse_body_def new_xml_error_def Let_def split: if_splits)
  qed
qed

lemma Parse_body_mpCurrentElement:
  "Parse_body lib s r = (x, r') \<Longrightarrow> mpCurrentElement r' = mpCurrentElement r"
  by (erule Parse_body_cases) (simp_all add: mpCurrentElement_handlers)

lemma Parse_body_wf_reader:
  "Parse_body lib s r = (x, r') \<Longrightarrow> wf_reader r \<Longrightarrow> wf_reader r'"
  by (erule Parse_body_cases) (simp_all add: wf_reader_handlers)

lemma Parse_body_live:
  "Parse_body lib s r = (x, r') \<Longrightarrow> mParser r \<noteq> None \<Longrightarrow>
   mParser r' \<noteq> None \<and> mpStream r' \<noteq> None \<and> x \<noteq> Throws undefined_behaviour"
  by (erule Parse_body_cases) (simp_all add: mParser_handlers mpStream_handlers)

subsection \<open>What Parse guarantees\<close>

lemma Parse_wf_reader: "wf_reader r \<Longrightarrow> wf_reader (snd (Parse lib r))"
  by (induction r rule: Parse_loop_induct [where lib = lib])
     (auto dest: Parse_body_wf_reader)

lemma Parse_mpCurrentElement: "mpCurrentElement (snd (Parse lib r)) = mpCurrentElement r"
  by (induction r rule: Parse_loop_induct [where lib = lib])
     (auto dest: Parse_body_mpCurrentElement)

text \<open>
  When \<open>Parse\<close> returns, an element is queued or the stream is at its end; it throws
  \<open>xml_error\<close> only after the tokenizer reported an error, and it runs into undefined
  behaviour only through a null stream or a null parser.
\<close>

lemma Parse_returns:
  "fst (Parse lib r) = Returns u \<Longrightarrow>
   mElements (snd (Parse lib r)) \<noteq> [] \<or>
   (\<exists>s. mpStream (snd (Parse lib r)) = Some s \<and> IStream_IsEOF s)"
  by (induction r rule: Parse_loop_induct [where lib = lib]) auto

lemma Parse_live:
  "mParser r \<noteq> None \<Longrightarrow> mpStream r \<noteq> None \<Longrightarrow>
   mParser (snd (Parse lib r)) \<noteq> None \<and> mpStream (snd (Parse lib r)) \<noteq> None \<and>
   fst (Parse lib r) \<noteq> Throws undefined_behaviour"
  by (induction r rule: Parse_loop_induct [where lib = lib])
     (auto dest: Parse_body_live)

text \<open>Each iteration takes at least one pending chunk from the stream.\<close>

lemma Parse_progress:
  "snd (Parse lib r) = r \<or> npending (snd (Parse lib r)) < npending r"
proof (induction r rule: Parse_loop_induct [where lib = lib])
  case (throws r s e r')
  then show ?case
    using Parse_body_npending [of s lib r "Throws e" r'] by (simp add: npending_def)
next
  case (continues r s u r')
  then show ?case
    using Parse_body_npending [of s lib r "Returns u" r'] by (auto simp: npending_def)
qed simp_all

subsection \<open>IsEOF and ReadElement\<close>

lemma IsEOF_null:
  "mParser r = None \<or> mpStream r = None \<Longrightarrow> IsEOF lib r = (Returns True, r)"
  by (simp add: IsEOF_def)

lemma IsEOF_live:
  "mParser r \<noteq> None \<Longrightarrow> mpStream r \<noteq> None \<Longrightarrow>
   IsEOF lib r = (case fst (Parse lib r) of
                    Throws e \<Rightarrow> (Throws e, snd (Parse lib r))
                  | Returns u \<Rightarrow> (Returns (mElements (snd (Parse lib r)) = []), snd (Parse lib r)))"
  by (cases "Parse lib r") (auto simp: IsEOF_def split: outcome.splits)

lemma ReadElement_nonempty:
  "mElements r = a # rest \<Longrightarrow>
   ReadElement lib r =
     (Returns a, (delete (mpCurrentElement r) r)\<lparr>mpCurrentElement := Some a, mElements := rest\<rparr>)"
  by (simp add: ReadElement_def Parse_nonempty delete_def split: option.splits)

lemma ReadElement_after_Parse:
  "Parse lib r = (Returns u, r1) \<Longrightarrow> mElements r1 = a # rest \<Longrightarrow>
   ReadElement lib r =
     (Returns a, (delete (mpCurrentElement r1) r1)\<lparr>mpCurrentElement := Some a, mElements := rest\<rparr>)"
  by (simp add: ReadElement_def delete_def split: option.splits)

lemma wf_reader_ReadElement:
  assumes "wf_reader r" and "fst (ReadElement lib r) \<noteq> Throws undefined_behaviour"
  shows "wf_reader (snd (ReadElement lib r))"
proof -
  obtain x r1 where p: "Parse lib r = (x, r1)"
    by (cases "Parse lib r") blast
  have wf1: "wf_reader r1"
    using Parse_wf_reader [OF assms(1), of lib] p by simp
  show ?thesis
  proof (cases x)
    case (Throws e)
    then show ?thesis using p wf1 by (simp add: ReadElement_def)
  next
    case (Returns u)
    show ?thesis
    proof (cases "mElements r1")
      case Nil
      then show ?thesis
        using assms(2) p Returns by (simp add: ReadElement_def delete_def split: option.splits)
    next
      case (Cons a rest)
      have "ReadElement lib r =
          (Returns a, (delete (mpCurrentElement r1) r1)\<lparr>mpCurrentElement := Some a, mElements := rest\<rparr>)"
        using p Returns Cons by (simp add: ReadElement_after_Parse)
      moreover have "wf_reader ((delete (mpCurrentElement r1) r1)\<lparr>mpCurrentElement := Some a, mElements := rest\<rparr>)"
        using wf1 Cons
        by (cases "mpCurrentElement r1") (auto simp: wf_reader_def delete_def)
      ultimately show ?thesis by simp
    qed
  qed
qed

lemma wf_reader_IsEOF: "wf_reader r \<Longrightarrow> wf_reader (snd (IsEOF lib r))"
  using Parse_wf_reader [of r lib]
  by (cases "Parse lib r") (auto simp: IsEOF_def split: outcome.splits)

lemma wf_parsed_doc_reader: "wf_reader parsed_doc_reader"
  unfolding parsed_doc_reader_def doc_reader_def
  by (rule Parse_wf_reader) (rule wf_reader_new)

lemma mElements_parsed_doc_reader: "mElements parsed_doc_reader = [0, 1, 2, 3, 4]"
  by (simp add: parsed_doc_reader_def Parse.simps doc_reader_def doc_def tiny_defs stream_defs
        reader_defs)

lemma Parse_doc_reader: "Parse tiny_expat (doc_reader False) = (Returns (), parsed_doc_reader)"
proof (rule prod_eqI)
  show "fst (Parse tiny_expat (doc_reader False)) = fst (Returns (), parsed_doc_reader)"
    by (simp add: Parse.simps doc_reader_def doc_def tiny_defs stream_defs reader_defs)
  show "snd (Parse tiny_expat (doc_reader False)) = snd (Returns (), parsed_doc_reader)"
    by (simp add: parsed_doc_reader_def)
qed

lemma started_doc_reader_fields:
  "fst (ReadElement tiny_expat (doc_reader False)) = Returns 0"
  "mElements started_doc_reader = [1, 2, 3, 4]"
  "mpCurrentElement started_doc_reader = Some 0"
  using ReadElement_after_Parse [OF Parse_doc_reader, of 0 "[1, 2, 3, 4]"]
  by (simp_all add: started_doc_reader_def mElements_parsed_doc_reader)

lemma wf_started_doc_reader: "wf_reader started_doc_reader"
proof -
  have "wf_reader (doc_reader False)"
    by (simp add: doc_reader_def wf_reader_new)
  moreover have "fst (ReadElement tiny_expat (doc_reader False)) \<noteq> Throws undefined_behaviour"
    by (simp add: started_doc_reader_fields(1))
  ultimately show ?thesis
    unfolding started_doc_reader_def by (rule wf_reader_ReadElement)
qed

subsection \<open>Reading a whole stream\<close>

lemma ReadElement_after_IsEOF_decreases:
  assumes "IsEOF lib r = (Returns False, r1)" and "ReadElement lib r1 = (Returns a, r2)"
  shows "npending r2 < npending r \<or>
         (npending r2 = npending r \<and> length (mElements r2) < length (mElements r))"
proof -
  have live: "mParser r \<noteq> None" "mpStream r \<noteq> None"
    using assms(1) by (auto simp: IsEOF_def split: if_splits)
  have r1: "r1 = snd (Parse lib r)" and q: "mElements r1 \<noteq> []"
    using assms(1) live by (auto simp: IsEOF_live split: outcome.splits)
  obtain b rest where cons: "mElements r1 = b # rest"
    using q by (cases "mElements r1") auto
  have r2: "npending r2 = npending r1" "mElements r2 = rest"
    using assms(2) ReadElement_nonempty [OF cons, of lib]
    by (auto simp: npending_def delete_def split: option.splits)
  show ?thesis
    using Parse_progress [of lib r] r1 r2 cons by auto
qed

text \<open>
  The loop of a caller, as the spec prescribes it (ask \<open>IsEOF\<close> first, then
  \<open>ReadElement\<close>): \<open>while (!reader.IsEOF()) out.push_back(reader.ReadElement());\<close>. The
  element is copied out of the store as soon as it is returned.
\<close>

function read_all :: "'p expat \<Rightarrow> 'p XMLReader \<Rightarrow> XMLElement list outcome \<times> 'p XMLReader" where
  "read_all lib r =
     (case IsEOF lib r of
        (Throws e, r1) \<Rightarrow> (Throws e, r1)
      | (Returns at_end, r1) \<Rightarrow>
          if at_end then (Returns [], r1)
          else (case ReadElement lib r1 of
                  (Throws e, r2) \<Rightarrow> (Throws e, r2)
                | (Returns a, r2) \<Rightarrow>
                    (case store r2 a of
                       None \<Rightarrow> (Throws undefined_behaviour, r2)
                     | Some el \<Rightarrow>
                         (case read_all lib r2 of
                            (Throws e, r3) \<Rightarrow> (Throws e, r3)
                          | (Returns els, r3) \<Rightarrow> (Returns (el # els), r3)))))"
  by pat_completeness auto
termination
  apply (relation "measures [\<lambda>(lib, r). npending r, \<lambda>(lib, r). length (mElements r)]")
   apply simp
  apply (auto dest!: ReadElement_after_IsEOF_decreases [OF sym sym])
  done

declare read_all.simps [simp del]

subsection \<open>The reader against the tokenizer fed directly\<close>

lemma int_cast_small:
  assumes "n < 2 ^ 31"
  shows "int_cast n = int n"
proof -
  have "(word_of_nat n :: 32 word) = word_of_int (int n)"
    by simp
  then have "int_cast n = signed_take_bit 31 (int n)"
    by (simp only: int_cast_def sint_sbintrunc') simp
  moreover have "int n < int (2 ^ 31)"
    using assms by (simp only: of_nat_less_iff)
  then have "int n < 2 ^ 31"
    by simp
  ultimately show ?thesis
    by (simp only: signed_take_bit_int_eq_self_iff) simp
qed

lemma IStream_IsEOF_chunks_read: "IStream_IsEOF s \<longleftrightarrow> chunks_read s = []"
  by (simp add: IStream_IsEOF_def chunks_read_def)

lemma chunks_read_step:
  assumes "\<not> IStream_IsEOF s"
    and "(if CanReadOptimized s then ReadOptimized s (GetLength s) else Read s) = (data, s')"
  shows "chunks_read s = data # chunks_read s'"
  using assms
  by (auto simp: chunks_read_def IStream_IsEOF_def CanReadOptimized_def ReadOptimized_def
        GetLength_def Read_def Let_def split: if_splits list.splits)

lemma contents_handlers:
  assumes "mElements r = []"
  shows "map (store (handlers evs r)) (mElements (handlers evs r))
           = map (\<lambda>ev. Some (element_of ev)) evs"
proof -
  have "mElements (handlers evs r) = [lim r ..< lim r + length evs]"
    using assms by (simp add: mElements_handlers)
  then show ?thesis
    by (intro nth_equalityI) (simp_all add: store_handlers)
qed

text \<open>
  A parse step entered with an empty queue, on a stream whose remaining chunks the
  tokenizer accepts: it returns with the handler calls \<open>evs1\<close> of the last chunk it fed
  queued, and what is left of the stream still to be tokenized.
\<close>

lemma Parse_tokenize:
  "wf_reader r \<longrightarrow> mElements r = [] \<longrightarrow>
   (\<forall>s p evs. mpStream r = Some s \<longrightarrow> mParser r = Some p \<longrightarrow>
      (\<forall>c \<in> set (chunks_read s). length c < 2 ^ 31) \<longrightarrow>
      tokenize lib p (chunks_read s) = (evs, XML_STATUS_OK) \<longrightarrow>
      (\<exists>s' p' evs1 evs2.
         fst (Parse lib r) = Returns () \<and>
         wf_reader (snd (Parse lib r)) \<and>
         mpStream (snd (Parse lib r)) = Some s' \<and> mParser (snd (Parse lib r)) = Some p' \<and>
         map (store (snd (Parse lib r))) (mElements (snd (Parse lib r)))
           = map (\<lambda>ev. Some (element_of ev)) evs1 \<and>
         evs = evs1 @ evs2 \<and>
         (\<forall>c \<in> set (chunks_read s'). length c < 2 ^ 31) \<and>
         tokenize lib p' (chunks_read s') = (evs2, XML_STATUS_OK) \<and>
         (evs1 = [] \<longrightarrow> IStream_IsEOF s')))"
proof (induction r rule: Parse_loop_induct [where lib = lib])
  case (nonempty r)
  then show ?case by simp
next
  case (null r)
  then show ?case by simp
next
  case (at_end r s)
  then show ?case by (auto simp: IStream_IsEOF_chunks_read)
next
  case (throws r s e r')
  show ?case
  proof (intro impI allI)
    fix s0 p evs
    assume wf: "wf_reader r" and s0: "mpStream r = Some s0" and p: "mParser r = Some p"
      and small: "\<forall>c \<in> set (chunks_read s0). length c < 2 ^ 31"
      and tok: "tokenize lib p (chunks_read s0) = (evs, XML_STATUS_OK)"
    from throws(4) have False
    proof (cases rule: Parse_body_cases)
      case (null_parser s')
      then show ?thesis using p by simp
    next
      case (fed p0 data s' evs0 status p')
      have ch: "chunks_read s = data # chunks_read s'"
        using chunks_read_step [OF throws(3) fed(2)] .
      have "length data < 2 ^ 31"
        using small s0 throws(2) ch by simp
      then have "XML_Parse lib p data (int (length data)) (chunks_read s' = []) = (evs0, status, p')"
        using fed(1,3) p by (simp add: int_cast_small IStream_IsEOF_chunks_read)
      moreover have "status = XML_STATUS_ERROR"
        using fed(5) by (simp split: if_splits)
      ultimately show ?thesis
        using tok s0 throws(2) ch by simp
    qed
    then show "\<exists>s' p' evs1 evs2.
         fst (Throws e, r') = Returns () \<and>
         wf_reader (snd (Throws e, r')) \<and>
         mpStream (snd (Throws e, r')) = Some s' \<and> mParser (snd (Throws e, r')) = Some p' \<and>
         map (store (snd (Throws e, r'))) (mElements (snd (Throws e, r')))
           = map (\<lambda>ev. Some (element_of ev)) evs1 \<and>
         evs = evs1 @ evs2 \<and>
         (\<forall>c \<in> set (chunks_read s'). length c < 2 ^ 31) \<and>
         tokenize lib p' (chunks_read s') = (evs2, XML_STATUS_OK) \<and>
         (evs1 = [] \<longrightarrow> IStream_IsEOF s')" ..
  qed
next
  case (continues r s u r')
  show ?case
  proof (intro impI allI)
    fix s0 p evs
    assume wf: "wf_reader r" and empty: "mElements r = []"
      and s0: "mpStream r = Some s0" and p: "mParser r = Some p"
      and small: "\<forall>c \<in> set (chunks_read s0). length c < 2 ^ 31"
      and tok: "tokenize lib p (chunks_read s0) = (evs, XML_STATUS_OK)"
    from continues(4) show "\<exists>s' p' evs1 evs2.
         fst (Parse lib r') = Returns () \<and>
         wf_reader (snd (Parse lib r')) \<and>
         mpStream (snd (Parse lib r')) = Some s' \<and> mParser (snd (Parse lib r')) = Some p' \<and>
         map (store (snd (Parse lib r'))) (mElements (snd (Parse lib r')))
           = map (\<lambda>ev. Some (element_of ev)) evs1 \<and>
         evs = evs1 @ evs2 \<and>
         (\<forall>c \<in> set (chunks_read s'). length c < 2 ^ 31) \<and>
         tokenize lib p' (chunks_read s') = (evs2, XML_STATUS_OK) \<and>
         (evs1 = [] \<longrightarrow> IStream_IsEOF s')"
    proof (cases rule: Parse_body_cases)
      case (null_parser s')
      then show ?thesis using p by simp
    next
      case (fed p0 data s' evs0 status p')
      have ch: "chunks_read s = data # chunks_read s'"
        using chunks_read_step [OF continues(3) fed(2)] .
      have small': "\<forall>c \<in> set (chunks_read s'). length c < 2 ^ 31"
        and "length data < 2 ^ 31"
        using small s0 continues(2) ch by simp_all
      then have call: "XML_Parse lib p data (int (length data)) (chunks_read s' = [])
          = (evs0, status, p')"
        using fed(1,3) p by (simp add: int_cast_small IStream_IsEOF_chunks_read)
      have ok: "status \<noteq> XML_STATUS_ERROR"
        using fed(5) by (simp split: if_splits)
      obtain evs' where rest: "tokenize lib p' (chunks_read s') = (evs', XML_STATUS_OK)"
        and evs: "evs = evs0 @ evs'"
        using tok s0 continues(2) ch call ok
        by (cases "tokenize lib p' (chunks_read s')") simp
      have wf': "wf_reader r'"
        using wf fed(4) by (simp add: wf_reader_handlers)
      have str': "mpStream r' = Some s'" and par': "mParser r' = Some p'"
        using fed(4) by (simp_all add: mpStream_handlers mParser_handlers)
      have cont': "map (store r') (mElements r') = map (\<lambda>ev. Some (element_of ev)) evs0"
        using fed(4) empty by (simp add: contents_handlers)
      show ?thesis
      proof (cases "evs0 = []")
        case True
        then have "mElements r' = []"
          using cont' by simp
        then show ?thesis
          using continues(5) wf' str' par' small' rest evs True by simp
      next
        case False
        then have "mElements r' \<noteq> []"
          using cont' by auto
        then have "Parse lib r' = (Returns (), r')"
          by (rule Parse_nonempty)
        then show ?thesis
          using wf' str' par' cont' small' rest evs False by auto
      qed
    qed
  qed
qed

lemma ReadElement_pop:
  assumes "wf_reader r" and "map (store r) (mElements r) = map Some (el # q)"
  shows "\<exists>a. fst (ReadElement lib r) = Returns a \<and>
             store (snd (ReadElement lib r)) a = Some el \<and>
             map (store (snd (ReadElement lib r))) (mElements (snd (ReadElement lib r)))
               = map Some q \<and>
             wf_reader (snd (ReadElement lib r)) \<and>
             mpStream (snd (ReadElement lib r)) = mpStream r \<and>
             mParser (snd (ReadElement lib r)) = mParser r"
proof -
  obtain a rest where cons: "mElements r = a # rest"
    using assms(2) by (cases "mElements r") auto
  have a: "store r a = Some el" and rest: "map (store r) rest = map Some q"
    using assms(2) cons by simp_all
  have run: "ReadElement lib r =
      (Returns a, (delete (mpCurrentElement r) r)\<lparr>mpCurrentElement := Some a, mElements := rest\<rparr>)"
    using cons by (rule ReadElement_nonempty)
  have "c \<noteq> a \<and> c \<notin> set rest" if "mpCurrentElement r = Some c" for c
    using assms(1) cons that by (auto simp: wf_reader_def)
  then have "store (delete (mpCurrentElement r) r) a = store r a"
    and "map (store (delete (mpCurrentElement r) r)) rest = map (store r) rest"
    by (cases "mpCurrentElement r"; auto simp: delete_def)+
  moreover have "wf_reader (snd (ReadElement lib r))"
    using assms(1) run by (intro wf_reader_ReadElement) simp_all
  ultimately show ?thesis
    using run a rest by (simp add: delete_def split: option.splits)
qed

lemma IsEOF_at_end_again:
  assumes "IsEOF lib r = (Returns True, r1)"
  shows "IsEOF lib r1 = (Returns True, r1)"
proof (cases "mParser r = None \<or> mpStream r = None")
  case True
  then show ?thesis using assms by (simp add: IsEOF_def)
next
  case False
  then have live: "mParser r \<noteq> None" "mpStream r \<noteq> None" by simp_all
  obtain u where ret: "fst (Parse lib r) = Returns u" and r1: "r1 = snd (Parse lib r)"
    and empty: "mElements r1 = []"
    using assms live by (auto simp: IsEOF_live split: outcome.splits)
  obtain s where "mpStream r1 = Some s" "IStream_IsEOF s"
    using Parse_returns [OF ret] r1 empty by auto
  then have "Parse lib r1 = (Returns (), r1)"
    by (rule Parse_at_end)
  moreover have "mParser r1 \<noteq> None" "mpStream r1 \<noteq> None"
    using Parse_live [OF live, of lib] r1 by simp_all
  ultimately show ?thesis
    using empty by (simp add: IsEOF_def)
qed

text \<open>
  The elements \<open>read_all\<close> collects are the elements already queued followed by one
  element per handler call of the tokenizer on the rest of the stream, in order.
\<close>

lemma read_all_tokenize:
  "wf_reader r \<longrightarrow>
   (\<forall>q s p evs. map (store r) (mElements r) = map Some q \<longrightarrow> mpStream r = Some s \<longrightarrow>
      mParser r = Some p \<longrightarrow> (\<forall>c \<in> set (chunks_read s). length c < 2 ^ 31) \<longrightarrow>
      tokenize lib p (chunks_read s) = (evs, XML_STATUS_OK) \<longrightarrow>
      fst (read_all lib r) = Returns (q @ map element_of evs))"
proof (induction lib r rule: read_all.induct)
  case (1 lib r)
  show ?case
  proof (intro impI allI)
    fix q s p evs
    assume wf: "wf_reader r" and q: "map (store r) (mElements r) = map Some q"
      and s: "mpStream r = Some s" and p: "mParser r = Some p"
      and small: "\<forall>c \<in> set (chunks_read s). length c < 2 ^ 31"
      and tok: "tokenize lib p (chunks_read s) = (evs, XML_STATUS_OK)"
    define r1 where "r1 = snd (Parse lib r)"
    have step: "\<exists>q1 s1 p1 evs1.
        fst (Parse lib r) = Returns () \<and> wf_reader r1 \<and>
        mpStream r1 = Some s1 \<and> mParser r1 = Some p1 \<and>
        map (store r1) (mElements r1) = map Some q1 \<and>
        q @ map element_of evs = q1 @ map element_of evs1 \<and>
        (\<forall>c \<in> set (chunks_read s1). length c < 2 ^ 31) \<and>
        tokenize lib p1 (chunks_read s1) = (evs1, XML_STATUS_OK) \<and>
        (q1 = [] \<longrightarrow> evs1 = [])"
    proof (cases "mElements r = []")
      case False
      then have "Parse lib r = (Returns (), r)"
        by (rule Parse_nonempty)
      moreover have "q \<noteq> []"
        using q False by auto
      ultimately show ?thesis
        using wf q s p small tok by (auto simp: r1_def)
    next
      case True
      then have q_empty: "q = []"
        using q by simp
      obtain s' p' evs1 evs2 where pt:
        "fst (Parse lib r) = Returns ()" "wf_reader r1"
        "mpStream r1 = Some s'" "mParser r1 = Some p'"
        "map (store r1) (mElements r1) = map (\<lambda>ev. Some (element_of ev)) evs1"
        "evs = evs1 @ evs2"
        "\<forall>c \<in> set (chunks_read s'). length c < 2 ^ 31"
        "tokenize lib p' (chunks_read s') = (evs2, XML_STATUS_OK)"
        "evs1 = [] \<longrightarrow> IStream_IsEOF s'"
        using Parse_tokenize [of r lib] wf True s p small tok unfolding r1_def by blast
      have "evs2 = []" if "evs1 = []"
        using pt(8,9) that by (simp add: IStream_IsEOF_chunks_read)
      moreover have "map (store r1) (mElements r1) = map Some (map element_of evs1)"
        using pt(5) by simp
      ultimately show ?thesis
        using pt q_empty by (intro exI [of _ "map element_of evs1"] exI [of _ s']
            exI [of _ p'] exI [of _ evs2]) simp
    qed
    then obtain q1 s1 p1 evs1 where st:
      "fst (Parse lib r) = Returns ()" "wf_reader r1"
      "mpStream r1 = Some s1" "mParser r1 = Some p1"
      "map (store r1) (mElements r1) = map Some q1"
      "q @ map element_of evs = q1 @ map element_of evs1"
      "\<forall>c \<in> set (chunks_read s1). length c < 2 ^ 31"
      "tokenize lib p1 (chunks_read s1) = (evs1, XML_STATUS_OK)"
      "q1 = [] \<longrightarrow> evs1 = []"
      by blast
    have eof: "IsEOF lib r = (Returns (mElements r1 = []), r1)"
      using s p st(1) by (simp add: IsEOF_live r1_def)
    show "fst (read_all lib r) = Returns (q @ map element_of evs)"
    proof (cases q1)
      case Nil
      then have "mElements r1 = []"
        using st(5) by simp
      then show ?thesis
        using eof st(6,9) Nil by (simp add: read_all.simps [of lib r])
    next
      case (Cons el q')
      then have nonempty: "mElements r1 \<noteq> []"
        using st(5) by auto
      define r2 where "r2 = snd (ReadElement lib r1)"
      obtain a where pop:
        "fst (ReadElement lib r1) = Returns a" "store r2 a = Some el"
        "map (store r2) (mElements r2) = map Some q'" "wf_reader r2"
        "mpStream r2 = mpStream r1" "mParser r2 = mParser r1"
        using ReadElement_pop [OF st(2), of el q' lib] st(5) Cons unfolding r2_def by blast
      have eof': "(Returns False, r1) = IsEOF lib r"
        using eof nonempty by simp
      have rd: "(Returns a, r2) = ReadElement lib r1"
        using pop(1) by (simp add: r2_def prod_eq_iff)
      have "fst (read_all lib r2) = Returns (q' @ map element_of evs1)"
        using "1.IH" [OF eof' refl _ rd refl pop(2)] pop(3-6) st(3,4,7,8) by simp
      then show ?thesis
        using eof' [symmetric] rd [symmetric] pop(2) st(6) Cons
        by (cases "read_all lib r2") (simp add: read_all.simps [of lib r])
    qed
  qed
qed

lemma read_all_at_end:
  "fst (read_all lib r) = Returns els \<longrightarrow>
   IsEOF lib (snd (read_all lib r)) = (Returns True, snd (read_all lib r))"
proof (induction lib r arbitrary: els rule: read_all.induct)
  case (1 lib r)
  obtain x r1 where eof: "IsEOF lib r = (x, r1)"
    by (cases "IsEOF lib r") blast
  show ?case
  proof (cases x)
    case (Throws e)
    then show ?thesis using eof by (simp add: read_all.simps [of lib r])
  next
    case (Returns at_end)
    show ?thesis
    proof (cases at_end)
      case True
      then show ?thesis
        using eof Returns IsEOF_at_end_again [of lib r r1]
        by (simp add: read_all.simps [of lib r])
    next
      case False
      obtain y r2 where rd: "ReadElement lib r1 = (y, r2)"
        by (cases "ReadElement lib r1") blast
      show ?thesis
      proof (cases y)
        case (Throws e)
        then show ?thesis
          using eof Returns False rd by (simp add: read_all.simps [of lib r])
      next
        case ret: (Returns a)
        show ?thesis
        proof (cases "store r2 a")
          case None
          then show ?thesis
            using eof Returns False rd ret by (simp add: read_all.simps [of lib r])
        next
          case (Some el)
          have ih: "fst (read_all lib r2) = Returns els' \<longrightarrow>
              IsEOF lib (snd (read_all lib r2)) = (Returns True, snd (read_all lib r2))" for els'
            using "1.IH" [OF eof [symmetric] Returns _ rd [symmetric] ret Some] False by simp
          show ?thesis
            using eof Returns False rd ret Some ih
            by (cases "read_all lib r2"; cases "fst (read_all lib r2)")
               (auto simp: read_all.simps [of lib r])
        qed
      qed
    qed
  qed
qed

lemma length_chunk_le_concat: "c \<in> set cs \<Longrightarrow> length c \<le> length (concat cs)"
  by (induction cs) auto

lemma chunks_read_small:
  assumes "length (concat (pending s)) < 2 ^ 31"
  shows "\<forall>c \<in> set (chunks_read s). length c < 2 ^ 31"
proof
  fix c
  assume "c \<in> set (chunks_read s)"
  then have "length c \<le> length (concat (pending s))"
    by (auto simp: chunks_read_def dest: length_chunk_le_concat split: if_splits)
  then show "length c < 2 ^ 31"
    using assms by simp
qed

text \<open>A fresh reader gives one element per handler call of the tokenizer on its stream.\<close>

lemma read_all_new:
  assumes "length (concat (pending s)) < 2 ^ 31"
    and "tokenize lib p0 (chunks_read s) = (evs, XML_STATUS_OK)"
  shows "fst (read_all lib (XMLReader_new (Some p0) (Some s))) = Returns (map element_of evs)"
proof -
  have "map (store (XMLReader_new (Some p0) (Some s))) (mElements (XMLReader_new (Some p0) (Some s)))
          = map Some []"
    and "mpStream (XMLReader_new (Some p0) (Some s)) = Some s"
    and "mParser (XMLReader_new (Some p0) (Some s)) = Some p0"
    by (simp_all add: XMLReader_new_def)
  then show ?thesis
    using read_all_tokenize [of "XMLReader_new (Some p0) (Some s)" lib]
      wf_reader_new [of "Some p0" "Some s"] chunks_read_small [OF assms(1)] assms(2)
    by fastforce
qed

lemma tokenize_doc:
  "tokenize tiny_expat tiny_parser_new (chunks_read (doc_stream fast)) = (doc_events, XML_STATUS_OK)"
  by (simp add: chunks_read_def doc_stream_def doc_def doc_events_def tiny_defs Let_def)

subsection \<open>Elements by kind\<close>

lemma tidy_element_of: "tidy (element_of ev)"
  by (cases ev) (simp_all add: tidy_def fold_set_attribute_kind new_XMLElement_def)

lemma tidy_store_handlers: "tidy_store r \<Longrightarrow> tidy_store (handlers evs r)"
  by (auto simp: tidy_store_def ran_def store_handlers tidy_element_of split: if_splits)

lemma tidy_store_Parse_body:
  "Parse_body lib s r = (x, r') \<Longrightarrow> tidy_store r \<Longrightarrow> tidy_store r'"
proof (erule Parse_body_cases)
  fix s' assume "r' = r\<lparr>mpStream := Some s'\<rparr>" "tidy_store r"
  then show "tidy_store r'" by (simp add: tidy_store_def)
next
  fix evs s' p'
  assume "r' = handlers evs (r\<lparr>mpStream := Some s', mParser := Some p'\<rparr>)" "tidy_store r"
  moreover have "tidy_store (r\<lparr>mpStream := Some s', mParser := Some p'\<rparr>) = tidy_store r"
    by (simp add: tidy_store_def)
  ultimately show "tidy_store r'" by (simp add: tidy_store_handlers)
qed

lemma tidy_store_Parse: "tidy_store r \<Longrightarrow> tidy_store (snd (Parse lib r))"
  by (induction r rule: Parse_loop_induct [where lib = lib])
     (auto dest: tidy_store_Parse_body)

lemma tidy_store_delete: "tidy_store r \<Longrightarrow> tidy_store (delete p r)"
  by (cases p) (auto simp: tidy_store_def delete_def ran_def split: if_splits)

subsection \<open>After a failed parse step\<close>






















subsection \<open>A stream of \<open>2^31\<close> bytes\<close>

lemma length_filler [simp]: "length (filler n) = n"
  by (simp add: filler_def)

lemma filler_append: "filler m @ filler n = filler (m + n)"
  by (simp add: filler_def replicate_add)

lemma concat_replicate_filler: "concat (replicate k (filler n)) = filler (k * n)"
  by (induction k) (simp_all add: filler_append add.commute, simp add: filler_def)

lemma concat_big_chunks: "concat big_chunks = ''<a>'' @ filler (2 ^ 31 - 7) @ ''</a>''"
proof -
  have "concat big_chunks = ''<a>'' @ (filler 253 @ filler (many * 256) @ filler 252) @ ''</a>''"
    by (simp add: big_chunks_def concat_replicate_filler)
  moreover have "253 + (many * 256 + 252) = (2 :: nat) ^ 31 - 7"
    by (simp add: many_def)
  ultimately show ?thesis
    by (simp only: filler_append)
qed

lemma length_concat_big_chunks: "length (concat big_chunks) = 2 ^ 31"
  by (simp add: concat_big_chunks)

lemma big_chunks_256: "list_all (\<lambda>c. length c = 256) big_chunks"
  by (simp add: big_chunks_def list_all_iff)

lemma foldl_tiny_step_filler:
  "markup p = None \<Longrightarrow> failure p = None \<Longrightarrow>
   foldl tiny_step p (filler n) = p\<lparr>chardata := chardata p @ filler n\<rparr>"
proof (induction n arbitrary: p)
  case 0
  then show ?case by (simp add: filler_def)
next
  case (Suc n)
  have step: "tiny_step p (CHR ''x'') = p\<lparr>chardata := chardata p @ [CHR ''x'']\<rparr>"
    using Suc.prems by (simp add: tiny_step_def)
  have "foldl tiny_step p (filler (Suc n))
      = foldl tiny_step (p\<lparr>chardata := chardata p @ [CHR ''x'']\<rparr>) (filler n)"
    using step by (simp add: filler_def)
  also have "\<dots> = p\<lparr>chardata := chardata p @ [CHR ''x''] @ filler n\<rparr>"
    using Suc.prems by (simp add: Suc.IH)
  finally show ?case by (simp add: filler_def)
qed

lemma filler_nonempty: "0 < n \<Longrightarrow> filler n \<noteq> []"
  by (cases n) (simp_all add: filler_def)

lemma feed_first:
  "tiny_XML_Parse tiny_parser_new (''<a>'' @ filler 253) 256 False
     = ([StartElementEv ''a'' [], CharacterDataEv (filler 253)], XML_STATUS_OK, inside_a)"
proof -
  have head: "foldl tiny_step (tiny_parser_new\<lparr>bad_argument := False\<rparr>) ''<a>''
      = inside_a\<lparr>emitted := [StartElementEv ''a'' []]\<rparr>"
    by (simp add: inside_a_def tiny_parser_new_def tiny_step_def tiny_flush_def tiny_tag_def
          tiny_emit_def Let_def)
  have "foldl tiny_step (tiny_parser_new\<lparr>bad_argument := False\<rparr>) (''<a>'' @ filler 253)
      = inside_a\<lparr>emitted := [StartElementEv ''a'' []], chardata := filler 253\<rparr>"
    unfolding foldl_append head
    by (subst foldl_tiny_step_filler) (simp_all add: inside_a_def tiny_parser_new_def)
  moreover have "take (nat 256) (''<a>'' @ filler 253) = ''<a>'' @ filler 253"
    by simp
  ultimately show ?thesis
    using filler_nonempty [of 253]
    by (simp add: tiny_XML_Parse_def tiny_flush_def tiny_emit_def inside_a_def
          tiny_parser_new_def Let_def del: foldl_append)
qed

lemma feed_middle:
  "tiny_XML_Parse inside_a (filler 256) 256 False
     = ([CharacterDataEv (filler 256)], XML_STATUS_OK, inside_a)"
proof -
  have "foldl tiny_step (inside_a\<lparr>bad_argument := False\<rparr>) (filler 256)
      = inside_a\<lparr>chardata := filler 256\<rparr>"
    by (subst foldl_tiny_step_filler) (simp_all add: inside_a_def tiny_parser_new_def)
  moreover have "take (nat 256) (filler 256) = filler 256"
    by simp
  ultimately show ?thesis
    using filler_nonempty [of 256]
    by (simp add: tiny_XML_Parse_def tiny_flush_def tiny_emit_def inside_a_def
          tiny_parser_new_def Let_def)
qed

lemma feed_last:
  "tiny_XML_Parse inside_a (filler 252 @ ''</a>'') 256 True
     = ([CharacterDataEv (filler 252), EndElementEv ''a''], XML_STATUS_OK,
        tiny_parser_new\<lparr>root_seen := True\<rparr>)"
proof -
  have "foldl tiny_step (inside_a\<lparr>bad_argument := False\<rparr>) (filler 252)
      = inside_a\<lparr>chardata := filler 252\<rparr>"
    by (subst foldl_tiny_step_filler) (simp_all add: inside_a_def tiny_parser_new_def)
  then have "foldl tiny_step (inside_a\<lparr>bad_argument := False\<rparr>) (filler 252 @ ''</a>'')
      = tiny_parser_new\<lparr>root_seen := True,
          emitted := [CharacterDataEv (filler 252), EndElementEv ''a'']\<rparr>"
    unfolding foldl_append
    using filler_nonempty [of 252]
    by (simp add: inside_a_def tiny_parser_new_def tiny_step_def tiny_flush_def tiny_tag_def
          tiny_emit_def Let_def)
  moreover have "take (nat 256) (filler 252 @ ''</a>'') = filler 252 @ ''</a>''"
    by simp
  ultimately show ?thesis
    by (simp add: tiny_XML_Parse_def tiny_flush_def tiny_finish_def tiny_parser_new_def Let_def
          inside_a_def del: foldl_append)
qed

lemma tokenize_replicate:
  assumes "XML_Parse lib p c (int (length c)) False = (evs, XML_STATUS_OK, p)"
    and "rest \<noteq> []"
  shows "tokenize lib p (replicate k c @ rest)
     = (concat (replicate k evs) @ fst (tokenize lib p rest), snd (tokenize lib p rest))"
  using assms by (induction k) (simp_all add: case_prod_beta)

lemma tokenize_big_chunks:
  "tokenize tiny_expat tiny_parser_new (chunks_read (big_stream False))
     = (big_events, XML_STATUS_OK)"
proof -
  have mid: "XML_Parse tiny_expat inside_a (filler 256) (int (length (filler 256))) False
      = ([CharacterDataEv (filler 256)], XML_STATUS_OK, inside_a)"
    using feed_middle by (simp add: tiny_expat_def)
  have last: "tokenize tiny_expat inside_a [filler 252 @ ''</a>'']
      = ([CharacterDataEv (filler 252), EndElementEv ''a''], XML_STATUS_OK)"
    using feed_last by (simp add: tiny_expat_def)
  have rest: "tokenize tiny_expat inside_a (replicate many (filler 256) @ [filler 252 @ ''</a>''])
      = (replicate many (CharacterDataEv (filler 256))
           @ [CharacterDataEv (filler 252), EndElementEv ''a''], XML_STATUS_OK)"
    using tokenize_replicate [OF mid, of "[filler 252 @ ''</a>'']" many] last
    by (simp del: tokenize.simps)
  have first: "XML_Parse tiny_expat tiny_parser_new (''<a>'' @ filler 253)
        (int (length (''<a>'' @ filler 253))) False
      = ([StartElementEv ''a'' [], CharacterDataEv (filler 253)], XML_STATUS_OK, inside_a)"
    using feed_first by (simp add: tiny_expat_def)
  show ?thesis
    unfolding chunks_read_def big_stream_def big_chunks_def big_events_def
    using first rest by (simp del: length_append)
qed

lemma feed_whole:
  assumes "0 < n"
  shows "tiny_XML_Parse tiny_parser_new (''<a>'' @ filler n @ ''</a>'') (int (n + 7)) True
     = ([StartElementEv ''a'' [], CharacterDataEv (filler n), EndElementEv ''a''],
        XML_STATUS_OK, tiny_parser_new\<lparr>root_seen := True\<rparr>)"
proof -
  have head: "foldl tiny_step (tiny_parser_new\<lparr>bad_argument := False\<rparr>) ''<a>''
      = inside_a\<lparr>emitted := [StartElementEv ''a'' []]\<rparr>"
    by (simp add: inside_a_def tiny_parser_new_def tiny_step_def tiny_flush_def tiny_tag_def
          tiny_emit_def Let_def)
  have body: "foldl tiny_step (inside_a\<lparr>emitted := [StartElementEv ''a'' []]\<rparr>) (filler n)
      = inside_a\<lparr>emitted := [StartElementEv ''a'' []], chardata := filler n\<rparr>"
    by (subst foldl_tiny_step_filler) (simp_all add: inside_a_def tiny_parser_new_def)
  have whole: "foldl tiny_step (tiny_parser_new\<lparr>bad_argument := False\<rparr>)
        (''<a>'' @ filler n @ ''</a>'')
      = tiny_parser_new\<lparr>root_seen := True,
          emitted := [StartElementEv ''a'' [], CharacterDataEv (filler n), EndElementEv ''a'']\<rparr>"
    unfolding foldl_append head body
    using filler_nonempty [OF assms]
    by (simp add: inside_a_def tiny_parser_new_def tiny_step_def tiny_flush_def tiny_tag_def
          tiny_emit_def Let_def)
  have "take (nat (int (n + 7))) (''<a>'' @ filler n @ ''</a>'') = ''<a>'' @ filler n @ ''</a>''"
    by simp
  then show ?thesis
    unfolding tiny_XML_Parse_def
    by (simp only: Let_def whole) (simp add: tiny_flush_def tiny_finish_def tiny_parser_new_def)
qed

lemma tokenize_big_at_once:
  "tokenize tiny_expat tiny_parser_new (chunks_read (big_stream True))
     = ([StartElementEv ''a'' [], CharacterDataEv (filler (2 ^ 31 - 7)), EndElementEv ''a''],
        XML_STATUS_OK)"
proof -
  have "int (length (concat big_chunks)) = int (2 ^ 31 - 7 + 7)"
    by (simp add: length_concat_big_chunks)
  then have "tiny_XML_Parse tiny_parser_new (concat big_chunks)
        (int (length (concat big_chunks))) True
      = ([StartElementEv ''a'' [], CharacterDataEv (filler (2 ^ 31 - 7)), EndElementEv ''a''],
         XML_STATUS_OK, tiny_parser_new\<lparr>root_seen := True\<rparr>)"
    unfolding concat_big_chunks using feed_whole [of "2 ^ 31 - 7"] by simp
  moreover have "chunks_read (big_stream True) = [concat big_chunks]"
    by (simp add: chunks_read_def big_stream_def big_chunks_def)
  ultimately show ?thesis
    by (simp add: tiny_expat_def)
qed

lemma tags_of_big_events:
  "filter (\<lambda>e. kind e \<noteq> kText) (map element_of big_events)
     = [element_of (StartElementEv ''a'' []), element_of (EndElementEv ''a'')]"
  by (simp add: big_events_def new_XMLElement_def)

subsection \<open>The reader on chunks of at most \<open>2^31 - 1\<close> bytes, and on longer ones\<close>

lemma read_all_small_chunks:
  assumes "list_all (\<lambda>c. length c < 2 ^ 31) (chunks_read s)"
    and "tokenize lib p0 (chunks_read s) = (evs, XML_STATUS_OK)"
  shows "fst (read_all lib (XMLReader_new (Some p0) (Some s))) = Returns (map element_of evs)"
proof -
  have "map (store (XMLReader_new (Some p0) (Some s))) (mElements (XMLReader_new (Some p0) (Some s)))
          = map Some []"
    and "mpStream (XMLReader_new (Some p0) (Some s)) = Some s"
    and "mParser (XMLReader_new (Some p0) (Some s)) = Some p0"
    by (simp_all add: XMLReader_new_def)
  moreover have "\<forall>c \<in> set (chunks_read s). length c < 2 ^ 31"
    using assms(1) by (simp add: list_all_iff)
  ultimately show ?thesis
    using read_all_tokenize [of "XMLReader_new (Some p0) (Some s)" lib]
      wf_reader_new [of "Some p0" "Some s"] assms(2)
    by fastforce
qed

lemma read_all_optimized_refused:
  assumes "optimized s" and "pending s \<noteq> []"
    and "XML_Parse lib p0 (concat (pending s)) (int_cast (length (concat (pending s)))) True
           = (evs, XML_STATUS_ERROR, p')"
  shows "fst (read_all lib (XMLReader_new (Some p0) (Some s))) = Throws xml_error"
proof -
  let ?r = "XMLReader_new (Some p0) (Some s)"
  have rd: "ReadOptimized s (GetLength s) = (concat (pending s), s\<lparr>pending := []\<rparr>)"
    by (simp add: ReadOptimized_def GetLength_def Let_def)
  have "fst (Parse_body lib s ?r) = Throws xml_error"
    using assms(1,3) rd
    by (simp add: Parse_body_def CanReadOptimized_def IStream_IsEOF_def XMLReader_new_def
          new_xml_error_def Let_def)
  moreover have "mElements ?r = []" "mpStream ?r = Some s" "\<not> IStream_IsEOF s"
    using assms(2) by (simp_all add: XMLReader_new_def IStream_IsEOF_def)
  ultimately have "fst (Parse lib ?r) = Throws xml_error"
    by (cases "Parse_body lib s ?r") (simp add: Parse_step)
  then have "fst (IsEOF lib ?r) = Throws xml_error"
    by (cases "Parse lib ?r") (simp add: IsEOF_def XMLReader_new_def)
  then show ?thesis
    by (cases "IsEOF lib ?r") (simp add: read_all.simps [of lib ?r])
qed

lemma int_cast_big: "int_cast (length (concat big_chunks)) = - (2 ^ 31)"
  by (simp add: length_concat_big_chunks int_cast_def)

section \<open>The claims\<close>

text \<open>
  C1, as amended. For a reader with a parser and a stream, whenever \<open>hasMore()\<close> returns
  (that is, the parse step did not throw), the state is the one the parse step left, and
  \<open>hasMore()\<close> is false if and only if all input has been consumed and the queue is
  empty, and true exactly when an element is queued. A reader without parser or stream
  answers false without running the parse step, whatever input is left.
\<close>

theorem C1_hasMore_on_live_reader:
  "(mParser r \<noteq> None \<and> mpStream r \<noteq> None \<and> hasMore lib r = (Returns b, r') \<longrightarrow>
      r' = snd (Parse lib r) \<and>
      (b = False \<longleftrightarrow> all_input_consumed r' \<and> mElements r' = []) \<and>
      (b = True \<longleftrightarrow> mElements r' \<noteq> [])) \<and>
   (mParser r = None \<or> mpStream r = None \<longrightarrow> hasMore lib r = (Returns False, r))"
proof (intro conjI impI)
  assume live: "mParser r \<noteq> None \<and> mpStream r \<noteq> None \<and> hasMore lib r = (Returns b, r')"
  obtain x r1 where p: "Parse lib r = (x, r1)"
    by (cases "Parse lib r") blast
  have res: "x = Returns () \<and> r' = r1 \<and> b = (mElements r1 \<noteq> [])"
    using live p by (cases x) (auto simp: hasMore_def IsEOF_live)
  have "mElements r1 \<noteq> [] \<or> (\<exists>s. mpStream r1 = Some s \<and> IStream_IsEOF s)"
    using Parse_returns [of lib r "()"] p res by simp
  then have consumed: "mElements r1 = [] \<longrightarrow> all_input_consumed r1"
    by (auto simp: all_input_consumed_def)
  show "r' = snd (Parse lib r)"
    using res p by simp
  show "b = False \<longleftrightarrow> all_input_consumed r' \<and> mElements r' = []"
    using res consumed by auto
  show "b = True \<longleftrightarrow> mElements r' \<noteq> []"
    using res by auto
next
  assume "mParser r = None \<or> mpStream r = None"
  then show "hasMore lib r = (Returns False, r)"
    by (simp add: hasMore_def IsEOF_null)
qed

theorem C1_hasMore_on_live_reader_witness:
  "mParser (doc_reader False) \<noteq> None \<and> mpStream (doc_reader False) \<noteq> None \<and>
   hasMore tiny_expat (doc_reader False) = (Returns True, parsed_doc_reader) \<and>
   mElements parsed_doc_reader \<noteq> [] \<and>
   \<not> (all_input_consumed parsed_doc_reader \<and> mElements parsed_doc_reader = []) \<and>
   (mParser parserless_reader = None \<or> mpStream parserless_reader = None) \<and>
   hasMore tiny_expat parserless_reader = (Returns False, parserless_reader)"
proof -
  have live: "mParser (doc_reader False) \<noteq> None" "mpStream (doc_reader False) \<noteq> None"
    by (simp_all add: doc_reader_def XMLReader_new_def)
  have run: "hasMore tiny_expat (doc_reader False) = (Returns True, parsed_doc_reader)"
    using live
    by (simp add: hasMore_def IsEOF_def Parse_doc_reader mElements_parsed_doc_reader)
  have null: "mParser parserless_reader = None \<or> mpStream parserless_reader = None"
    by (simp add: parserless_reader_def XMLReader_new_def)
  show ?thesis
    using live run null
      C1_hasMore_on_live_reader [of "doc_reader False" tiny_expat True parsed_doc_reader]
      C1_hasMore_on_live_reader [of parserless_reader tiny_expat]
    by simp
qed

text \<open>
  C1, as stated for every reader state, fails: the reader whose parser could not be
  created answers \<open>hasMore()\<close> with false while its stream still has input.
\<close>

theorem C1_counterexample:
  "fst (hasMore tiny_expat parserless_reader) = Returns False \<and>
   \<not> (all_input_consumed (snd (hasMore tiny_expat parserless_reader)) \<and>
      mElements (snd (hasMore tiny_expat parserless_reader)) = [])"
  by (simp add: parserless_reader_def XMLReader_new_def hasMore_def IsEOF_def
        all_input_consumed_def IStream_IsEOF_def)

text \<open>
  C2. The handler calls made during one \<open>XML_Parse\<close> call append exactly one element per
  call to the back of the queue, in the order of the calls, each at an address of its own,
  and leave the elements already queued as they were. A start-tag call gives a \<open>kStart\<close>
  element with the given name whose attribute map is built from the pairs in order (with
  distinct attribute names, as a tokenizer delivers them, it holds every pair and nothing
  else); an end-tag call gives a \<open>kEnd\<close> element with the given name; a character-data
  call gives a \<open>kText\<close> element holding exactly the delivered span.
\<close>

theorem C2_one_element_per_event:
  assumes "wf_reader r"
  shows "length (mElements (handlers evs r)) = length (mElements r) + length evs \<and>
         distinct (mElements (handlers evs r)) \<and>
         take (length (mElements r)) (mElements (handlers evs r)) = mElements r \<and>
         map (store (handlers evs r)) (mElements r) = map (store r) (mElements r) \<and>
         (\<forall>i < length evs.
            \<exists>e. store (handlers evs r) (mElements (handlers evs r) ! (length (mElements r) + i))
                  = Some e \<and>
                (case evs ! i of
                   StartElementEv nm atts \<Rightarrow>
                     kind e = kStart \<and> name e = nm \<and> attributes e = map_of (rev atts) \<and>
                     (distinct (map fst atts) \<longrightarrow>
                        dom (attributes e) = fst ` set atts \<and>
                        (\<forall>kv \<in> set atts. attributes e (fst kv) = Some (snd kv)))
                 | EndElementEv nm \<Rightarrow>
                     kind e = kEnd \<and> name e = nm \<and> attributes e = Map.empty
                 | CharacterDataEv s \<Rightarrow>
                     kind e = kText \<and> name e = s \<and> attributes e = Map.empty))"
proof -
  have old: "a < lim r" if "a \<in> set (mElements r)" for a
    using assms that by (auto simp: wf_reader_def)
  have "map (store (handlers evs r)) (mElements r) = map (store r) (mElements r)"
    by (auto simp: store_handlers dest: old)
  moreover have "distinct (mElements (handlers evs r))"
    using wf_reader_handlers [OF assms, of evs] by (simp add: wf_reader_def)
  moreover have "\<exists>e. store (handlers evs r) (mElements (handlers evs r) ! (length (mElements r) + i))
                  = Some e \<and>
                (case evs ! i of
                   StartElementEv nm atts \<Rightarrow>
                     kind e = kStart \<and> name e = nm \<and> attributes e = map_of (rev atts) \<and>
                     (distinct (map fst atts) \<longrightarrow>
                        dom (attributes e) = fst ` set atts \<and>
                        (\<forall>kv \<in> set atts. attributes e (fst kv) = Some (snd kv)))
                 | EndElementEv nm \<Rightarrow>
                     kind e = kEnd \<and> name e = nm \<and> attributes e = Map.empty
                 | CharacterDataEv s \<Rightarrow>
                     kind e = kText \<and> name e = s \<and> attributes e = Map.empty)"
    if i: "i < length evs" for i
  proof -
    have at: "mElements (handlers evs r) ! (length (mElements r) + i) = lim r + i"
      using i by (simp add: mElements_handlers nth_append)
    have st: "store (handlers evs r) (lim r + i) = Some (element_of (evs ! i))"
      using i by (simp add: store_handlers)
    have "case evs ! i of
            StartElementEv nm atts \<Rightarrow>
              kind (element_of (evs ! i)) = kStart \<and> name (element_of (evs ! i)) = nm \<and>
              attributes (element_of (evs ! i)) = map_of (rev atts) \<and>
              (distinct (map fst atts) \<longrightarrow>
                 dom (attributes (element_of (evs ! i))) = fst ` set atts \<and>
                 (\<forall>kv \<in> set atts. attributes (element_of (evs ! i)) (fst kv) = Some (snd kv)))
          | EndElementEv nm \<Rightarrow>
              kind (element_of (evs ! i)) = kEnd \<and> name (element_of (evs ! i)) = nm \<and>
              attributes (element_of (evs ! i)) = Map.empty
          | CharacterDataEv s \<Rightarrow>
              kind (element_of (evs ! i)) = kText \<and> name (element_of (evs ! i)) = s \<and>
              attributes (element_of (evs ! i)) = Map.empty"
    proof (cases "evs ! i")
      case (StartElementEv nm atts)
      have "map_of (rev atts) (fst kv) = Some (snd kv)"
        if "distinct (map fst atts)" "kv \<in> set atts" for kv
        using that by (intro map_of_is_SomeI) (simp_all add: rev_map [symmetric])
      then show ?thesis
        using StartElementEv
        by (simp add: fold_set_attribute_kind fold_set_attribute_name
              fold_set_attribute_attributes new_XMLElement_def dom_map_of_conv_image_fst)
    qed (simp_all add: new_XMLElement_def)
    then show ?thesis using at st by simp
  qed
  ultimately show ?thesis
    by (simp add: mElements_handlers)
qed

theorem C2_one_element_per_event_witness:
  "wf_reader parsed_doc_reader \<and>
   length (mElements (handlers doc_events parsed_doc_reader)) = 5 + 5 \<and>
   take 5 (mElements (handlers doc_events parsed_doc_reader)) = mElements parsed_doc_reader \<and>
   (0::nat) < length doc_events \<and> distinct (map fst [(''x'', ''1'')]) \<and>
   (\<exists>e. store (handlers doc_events parsed_doc_reader)
           (mElements (handlers doc_events parsed_doc_reader) ! (5 + 0)) = Some e \<and>
        kind e = kStart \<and> name e = ''a'' \<and> attributes e ''x'' = Some ''1'' \<and>
        dom (attributes e) = {''x''})"
proof -
  have len: "length (mElements parsed_doc_reader) = 5"
    by (simp add: mElements_parsed_doc_reader)
  have i: "(0::nat) < length doc_events"
    by (simp add: doc_events_def)
  have ev: "doc_events ! 0 = StartElementEv ''a'' [(''x'', ''1'')]"
    by (simp add: doc_events_def)
  note inst = C2_one_element_per_event [OF wf_parsed_doc_reader, of doc_events]
  from inst i obtain e where
    "store (handlers doc_events parsed_doc_reader)
       (mElements (handlers doc_events parsed_doc_reader) ! (length (mElements parsed_doc_reader) + 0))
       = Some e"
    "case doc_events ! 0 of
       StartElementEv nm atts \<Rightarrow>
         kind e = kStart \<and> name e = nm \<and> attributes e = map_of (rev atts) \<and>
         (distinct (map fst atts) \<longrightarrow>
            dom (attributes e) = fst ` set atts \<and>
            (\<forall>kv \<in> set atts. attributes e (fst kv) = Some (snd kv)))
     | EndElementEv nm \<Rightarrow> kind e = kEnd \<and> name e = nm \<and> attributes e = Map.empty
     | CharacterDataEv s \<Rightarrow> kind e = kText \<and> name e = s \<and> attributes e = Map.empty"
    by blast
  then have "\<exists>e. store (handlers doc_events parsed_doc_reader)
           (mElements (handlers doc_events parsed_doc_reader) ! (5 + 0)) = Some e \<and>
        kind e = kStart \<and> name e = ''a'' \<and> attributes e ''x'' = Some ''1'' \<and>
        dom (attributes e) = {''x''}"
    unfolding ev len by (intro exI [of _ e]) simp
  then show ?thesis
    using wf_parsed_doc_reader inst len i by (simp add: doc_events_def)
qed

text \<open>
  C3. When the parse step returns with a non-empty queue, \<open>ReadElement\<close> returns the
  head of the queue (the element queued longest, since the handlers append at the back),
  takes it off the queue and holds it in \<open>mpCurrentElement\<close>, still allocated and as it
  was queued; the element returned by the call before is deleted, and nothing else is.
\<close>

theorem C3_ReadElement_returns_head:
  assumes "wf_reader r" and "Parse lib r = (Returns (), r1)" and "mElements r1 = a # rest"
  shows "fst (ReadElement lib r) = Returns a \<and>
         mElements (snd (ReadElement lib r)) = rest \<and>
         mpCurrentElement (snd (ReadElement lib r)) = Some a \<and>
         store (snd (ReadElement lib r)) a = store r1 a \<and>
         store (snd (ReadElement lib r)) a \<noteq> None \<and>
         (\<forall>c. mpCurrentElement r = Some c \<longrightarrow> store (snd (ReadElement lib r)) c = None) \<and>
         dom (store (snd (ReadElement lib r))) = dom (store r1) - set_option (mpCurrentElement r)"
proof -
  have wf1: "wf_reader r1"
    using Parse_wf_reader [OF assms(1), of lib] assms(2) by simp
  have cur: "mpCurrentElement r1 = mpCurrentElement r"
    using Parse_mpCurrentElement [of lib r] assms(2) by simp
  have a_dom: "a \<in> dom (store r1)"
    using wf1 assms(3) by (auto simp: wf_reader_def)
  have a_cur: "mpCurrentElement r1 \<noteq> Some a"
    using wf1 assms(3) by (auto simp: wf_reader_def)
  show ?thesis
    using ReadElement_after_Parse [OF assms(2,3)] cur a_dom a_cur
    by (cases "mpCurrentElement r") (auto simp: delete_def)
qed

theorem C3_ReadElement_returns_head_witness:
  "wf_reader started_doc_reader \<and>
   Parse tiny_expat started_doc_reader = (Returns (), started_doc_reader) \<and>
   mElements started_doc_reader = 1 # [2, 3, 4] \<and>
   mpCurrentElement started_doc_reader = Some 0 \<and>
   fst (ReadElement tiny_expat started_doc_reader) = Returns 1 \<and>
   mElements (snd (ReadElement tiny_expat started_doc_reader)) = [2, 3, 4] \<and>
   store (snd (ReadElement tiny_expat started_doc_reader)) 0 = None \<and>
   store (snd (ReadElement tiny_expat started_doc_reader)) 1 \<noteq> None"
proof -
  have q: "mElements started_doc_reader = 1 # [2, 3, 4]"
    by (simp add: started_doc_reader_fields)
  have p: "Parse tiny_expat started_doc_reader = (Returns (), started_doc_reader)"
    by (rule Parse_nonempty) (simp add: q)
  show ?thesis
    using wf_started_doc_reader p q started_doc_reader_fields(3)
      C3_ReadElement_returns_head [OF wf_started_doc_reader p q]
    by blast
qed

text \<open>
  C4. Take any tokenizer that, fed the document \<open><a x="1"><b/>hello</a>\<close> as the stream
  delivers it, makes the handler calls start \<open>a\<close> with \<open>x = 1\<close>, start \<open>b\<close>, end \<open>b\<close>,
  character data \<open>hello\<close>, end \<open>a\<close>, and reports success (as the library does when the
  document arrives in one read, buffered or optimized). Then a reader created on that
  stream yields exactly StartTag a with \<open>{x: 1}\<close>, StartTag b with no attribute, EndTag b,
  Text hello, EndTag a, and \<open>hasMore()\<close> returns false afterwards.
\<close>

theorem C4_document_round_trip:
  assumes "concat (pending s) = doc"
    and "tokenize lib p0 (chunks_read s) = (doc_events, XML_STATUS_OK)"
  shows "fst (read_all lib (XMLReader_new (Some p0) (Some s))) =
           Returns [\<lparr>kind = kStart, name = ''a'', attributes = [''x'' \<mapsto> ''1'']\<rparr>,
                    \<lparr>kind = kStart, name = ''b'', attributes = Map.empty\<rparr>,
                    \<lparr>kind = kEnd, name = ''b'', attributes = Map.empty\<rparr>,
                    \<lparr>kind = kText, name = ''hello'', attributes = Map.empty\<rparr>,
                    \<lparr>kind = kEnd, name = ''a'', attributes = Map.empty\<rparr>] \<and>
         fst (hasMore lib (snd (read_all lib (XMLReader_new (Some p0) (Some s))))) = Returns False"
proof -
  have "length (concat (pending s)) < 2 ^ 31"
    using assms(1) by (simp add: doc_def)
  then have all: "fst (read_all lib (XMLReader_new (Some p0) (Some s)))
      = Returns (map element_of doc_events)"
    using assms(2) by (rule read_all_new)
  then have "IsEOF lib (snd (read_all lib (XMLReader_new (Some p0) (Some s))))
      = (Returns True, snd (read_all lib (XMLReader_new (Some p0) (Some s))))"
    using read_all_at_end [of lib "XMLReader_new (Some p0) (Some s)"] by simp
  then show ?thesis
    using all by (simp add: hasMore_def doc_events_def new_XMLElement_def set_attribute_def)
qed

theorem C4_document_round_trip_witness:
  "concat (pending (doc_stream False)) = doc \<and>
   tokenize tiny_expat tiny_parser_new (chunks_read (doc_stream False))
     = (doc_events, XML_STATUS_OK) \<and>
   fst (read_all tiny_expat (XMLReader_new (Some tiny_parser_new) (Some (doc_stream False)))) =
     Returns [\<lparr>kind = kStart, name = ''a'', attributes = [''x'' \<mapsto> ''1'']\<rparr>,
              \<lparr>kind = kStart, name = ''b'', attributes = Map.empty\<rparr>,
              \<lparr>kind = kEnd, name = ''b'', attributes = Map.empty\<rparr>,
              \<lparr>kind = kText, name = ''hello'', attributes = Map.empty\<rparr>,
              \<lparr>kind = kEnd, name = ''a'', attributes = Map.empty\<rparr>] \<and>
   fst (hasMore tiny_expat
          (snd (read_all tiny_expat (XMLReader_new (Some tiny_parser_new) (Some (doc_stream False))))))
     = Returns False"
proof -
  have c: "concat (pending (doc_stream False)) = doc"
    by (simp add: doc_stream_def)
  show ?thesis
    using c tokenize_doc [of False] C4_document_round_trip [OF c tokenize_doc [of False]]
    by simp
qed

text \<open>
  C5. The reader does throw \<open>xml_error\<close> when the tokenizer reports an error, and the
  throw site passes it the tokenizer's diagnostic; but the constructor of \<open>xml_error\<close>
  ignores its argument and the class has no member, so the exception carries no message.
  On the malformed document the tokenizer's diagnostic is "mismatched tag", and the
  exception thrown is the one any other text would have given.
\<close>

theorem C5_xml_error_carries_no_message:
  "fst (ReadElement tiny_expat malformed_reader) = Throws xml_error \<and>
   map_option (XML_ErrorText tiny_expat) (mParser (snd (ReadElement tiny_expat malformed_reader)))
     = Some ''mismatched tag'' \<and>
   new_xml_error ''mismatched tag'' = new_xml_error ''no element found''"
  by (simp add: ReadElement_def Parse.simps malformed_reader_def malformed_doc_def tiny_defs
        stream_defs reader_defs)

text \<open>
  C6, as amended. With a null parser or a null stream \<open>IsEOF\<close> returns true, so that
  \<open>hasMore()\<close>, its negation, returns false ("at end"), on every call, without an error,
  without running the parse step and without changing the state. (The claim says that it
  returns true.)
\<close>

theorem C6_null_reader_is_at_end:
  "mParser r = None \<or> mpStream r = None \<Longrightarrow>
   IsEOF lib r = (Returns True, r) \<and> hasMore lib r = (Returns False, r)"
  by (simp add: hasMore_def IsEOF_null)

theorem C6_null_reader_is_at_end_witness:
  "(mParser parserless_reader = None \<or> mpStream parserless_reader = None) \<and>
   IsEOF tiny_expat parserless_reader = (Returns True, parserless_reader) \<and>
   hasMore tiny_expat parserless_reader = (Returns False, parserless_reader)"
proof -
  have h: "mParser parserless_reader = None \<or> mpStream parserless_reader = None"
    by (simp add: parserless_reader_def XMLReader_new_def)
  show ?thesis
    using h C6_null_reader_is_at_end [OF h, of tiny_expat] by simp
qed

text \<open>
  C6, as stated, fails: the reader whose parser could not be created answers
  \<open>hasMore()\<close> with false, not with true.
\<close>

theorem C6_counterexample:
  "mParser parserless_reader = None \<and>
   fst (hasMore tiny_expat parserless_reader) = Returns False \<and>
   fst (hasMore tiny_expat parserless_reader) \<noteq> Returns True"
  by (simp add: parserless_reader_def XMLReader_new_def hasMore_def IsEOF_def)

text \<open>
  C7, as amended. Every element the reader ever holds has one of the three kinds, and an
  end-tag or text element has no attributes: this holds of a new reader and is kept by the
  handlers, by \<open>IsEOF\<close> and by \<open>ReadElement\<close>. There is no separate member for character
  content: the text handler stores the span in \<open>name\<close>, so that a text element has its
  \<open>name\<close> populated (with the text), as an end-tag element has (with the tag name).
\<close>

theorem C7_elements_by_kind:
  "tidy_store (XMLReader_new created pStream) \<and>
   (tidy_store r \<longrightarrow>
      tidy_store (handlers evs r) \<and> tidy_store (snd (IsEOF lib r)) \<and>
      tidy_store (snd (ReadElement lib r))) \<and>
   store (OnCharacterData r s) (lim r) = Some \<lparr>kind = kText, name = s, attributes = Map.empty\<rparr> \<and>
   store (OnEndElement r nm) (lim r) = Some \<lparr>kind = kEnd, name = nm, attributes = Map.empty\<rparr>"
proof -
  have "tidy_store (snd (IsEOF lib r))" if "tidy_store r"
    using that tidy_store_Parse [of r lib]
    by (cases "Parse lib r") (auto simp: IsEOF_def split: outcome.splits)
  moreover have "tidy_store (snd (ReadElement lib r))" if "tidy_store r"
  proof -
    obtain x r1 where p: "Parse lib r = (x, r1)"
      by (cases "Parse lib r") blast
    then have "tidy_store (delete (mpCurrentElement r1) r1)"
      using that tidy_store_Parse [of r lib] by (simp add: tidy_store_delete)
    moreover have "tidy_store r1"
      using that tidy_store_Parse [of r lib] p by simp
    ultimately show ?thesis
      using p
      by (auto simp: ReadElement_def Let_def tidy_store_def split: outcome.splits list.splits)
  qed
  moreover have "tidy_store (XMLReader_new created pStream)"
    by (simp add: tidy_store_def XMLReader_new_def)
  moreover have "store (OnCharacterData r s) (lim r)
      = Some \<lparr>kind = kText, name = s, attributes = Map.empty\<rparr>"
    by (simp add: OnCharacterData_def alloc_def push_back_def new_XMLElement_def)
  moreover have "store (OnEndElement r nm) (lim r)
      = Some \<lparr>kind = kEnd, name = nm, attributes = Map.empty\<rparr>"
    by (simp add: OnEndElement_def alloc_def push_back_def new_XMLElement_def)
  ultimately show ?thesis
    using tidy_store_handlers [of r evs] by blast
qed

theorem C7_elements_by_kind_witness:
  "tidy_store (doc_reader False) \<and>
   tidy_store (snd (ReadElement tiny_expat (doc_reader False))) \<and>
   store (OnCharacterData (doc_reader False) ''hello'') (lim (doc_reader False))
     = Some \<lparr>kind = kText, name = ''hello'', attributes = Map.empty\<rparr>"
proof -
  note inst = C7_elements_by_kind [of "Some tiny_parser_new" "Some \<lparr>pending = [doc], optimized = False\<rparr>"
      "doc_reader False" "[]" tiny_expat "''hello''" "''a''"]
  have "tidy_store (doc_reader False)"
    using inst by (simp add: doc_reader_def)
  then show ?thesis
    using inst by blast
qed

text \<open>
  C7, as stated, fails for text: the element made for the character data \<open>hello\<close> has
  its \<open>name\<close> populated.
\<close>

theorem C7_counterexample:
  "map_option kind (store (OnCharacterData (doc_reader False) ''hello'') 0) = Some kText \<and>
   map_option name (store (OnCharacterData (doc_reader False) ''hello'') 0) = Some ''hello'' \<and>
   map_option name (store (OnCharacterData (doc_reader False) ''hello'') 0) \<noteq> Some []"
  by (simp add: doc_reader_def reader_defs)

text \<open>
  C8. "For any well-formed XML byte stream and any two ways of splitting it into chunks
  (including one byte at a time and one single chunk), the reader produces identical
  Element sequences for start-tag and end-tag Elements; only the fragmentation of Text
  Elements may differ between chunkings."

  The code departs from this at the call \<open>XML_Parse(mParser, (char*)data, (int)length, done)\<close>:
  the number of bytes read is a \<open>size_t\<close>, and the cast to \<open>int\<close> wraps from \<open>2^31\<close> bytes on.
  Take the well-formed document \<open><a>x...x</a>\<close> of exactly \<open>2^31\<close> bytes. The tokenizer
  given it as one chunk with its true length reports the start tag, the text and the end
  tag. A reader that reads it buffered, 256 bytes per read, returns the start-tag Element
  \<open>a\<close>, the Text Elements and the end-tag Element \<open>a\<close>. A reader that reads the same bytes
  optimized, as one single chunk, passes the length \<open>-2^31\<close>, which the tokenizer refuses:
  it throws \<open>xml_error\<close> and produces no Element at all.
\<close>

theorem C8_single_chunk_of_2GiB_throws:
  "pending (big_stream True) = pending (big_stream False) \<and>
   concat (pending (big_stream False)) = ''<a>'' @ filler (2 ^ 31 - 7) @ ''</a>'' \<and>
   list_all (\<lambda>c. length c = 256) (chunks_read (big_stream False)) \<and>
   chunks_read (big_stream True) = [concat (pending (big_stream False))] \<and>
   tokenize tiny_expat tiny_parser_new (chunks_read (big_stream True))
     = ([StartElementEv ''a'' [], CharacterDataEv (filler (2 ^ 31 - 7)), EndElementEv ''a''],
        XML_STATUS_OK) \<and>
   fst (read_all tiny_expat (XMLReader_new (Some tiny_parser_new) (Some (big_stream False))))
     = Returns (map element_of big_events) \<and>
   filter (\<lambda>e. kind e \<noteq> kText) (map element_of big_events)
     = [\<lparr>kind = kStart, name = ''a'', attributes = Map.empty\<rparr>,
        \<lparr>kind = kEnd, name = ''a'', attributes = Map.empty\<rparr>] \<and>
   int_cast (length (concat (pending (big_stream True)))) = - (2 ^ 31) \<and>
   fst (read_all tiny_expat (XMLReader_new (Some tiny_parser_new) (Some (big_stream True))))
     = Throws xml_error"
proof -
  have same: "pending (big_stream True) = pending (big_stream False)"
    by (simp add: big_stream_def)
  have bytes: "concat (pending (big_stream False)) = ''<a>'' @ filler (2 ^ 31 - 7) @ ''</a>''"
    using concat_big_chunks by (simp add: big_stream_def)
  have chunks: "list_all (\<lambda>c. length c = 256) (chunks_read (big_stream False))"
    using big_chunks_256 by (simp add: chunks_read_def big_stream_def)
  have single: "chunks_read (big_stream True) = [concat (pending (big_stream False))]"
    by (simp add: chunks_read_def big_stream_def big_chunks_def)
  have small: "list_all (\<lambda>c. length c < 2 ^ 31) (chunks_read (big_stream False))"
    using chunks by (simp add: list_all_iff)
  have buffered:
    "fst (read_all tiny_expat (XMLReader_new (Some tiny_parser_new) (Some (big_stream False))))
       = Returns (map element_of big_events)"
    by (rule read_all_small_chunks [OF small tokenize_big_chunks])
  have tags: "filter (\<lambda>e. kind e \<noteq> kText) (map element_of big_events)
      = [\<lparr>kind = kStart, name = ''a'', attributes = Map.empty\<rparr>,
         \<lparr>kind = kEnd, name = ''a'', attributes = Map.empty\<rparr>]"
    using tags_of_big_events by (simp add: new_XMLElement_def)
  have cast: "int_cast (length (concat (pending (big_stream True)))) = - (2 ^ 31)"
    using int_cast_big by (simp add: big_stream_def)
  have "XML_Parse tiny_expat tiny_parser_new (concat (pending (big_stream True)))
          (int_cast (length (concat (pending (big_stream True))))) True
        = ([], XML_STATUS_ERROR, tiny_parser_new\<lparr>bad_argument := True\<rparr>)"
    unfolding cast by (simp add: tiny_expat_def tiny_XML_Parse_def)
  moreover have "optimized (big_stream True)" "pending (big_stream True) \<noteq> []"
    by (simp_all add: big_stream_def big_chunks_def)
  ultimately have optimized:
    "fst (read_all tiny_expat (XMLReader_new (Some tiny_parser_new) (Some (big_stream True))))
       = Throws xml_error"
    by (rule read_all_optimized_refused [rotated 2])
  show ?thesis
    using same bytes chunks single tokenize_big_at_once buffered tags cast optimized
    by blast
qed




text \<open>
  C10. With an element already queued, \<open>ReadElement\<close> returns the head and only removes
  it: the rest of the queue, in its order and with its elements as they were, the stream
  (so its position), the parser and the allocation mark are unchanged, and the result is
  the same whatever the tokenizer is, since it is not called.
\<close>

theorem C10_ReadElement_on_queued_element:
  assumes "wf_reader r" and "mElements r = a # rest"
  shows "fst (ReadElement lib r) = Returns a \<and>
         mElements (snd (ReadElement lib r)) = rest \<and>
         length (mElements (snd (ReadElement lib r))) + 1 = length (mElements r) \<and>
         map (store (snd (ReadElement lib r))) rest = map (store r) rest \<and>
         mpStream (snd (ReadElement lib r)) = mpStream r \<and>
         mParser (snd (ReadElement lib r)) = mParser r \<and>
         lim (snd (ReadElement lib r)) = lim r \<and>
         ReadElement lib' r = ReadElement lib r"
proof -
  have "c \<notin> set rest" if "mpCurrentElement r = Some c" for c
    using assms that by (auto simp: wf_reader_def)
  then have "map (store (delete (mpCurrentElement r) r)) rest = map (store r) rest"
    by (cases "mpCurrentElement r") (auto simp: delete_def)
  then show ?thesis
    using assms(2) by (simp add: ReadElement_nonempty delete_def split: option.splits)
qed

theorem C10_ReadElement_on_queued_element_witness:
  "wf_reader parsed_doc_reader \<and> mElements parsed_doc_reader = 0 # [1, 2, 3, 4] \<and>
   fst (ReadElement tiny_expat parsed_doc_reader) = Returns 0 \<and>
   mElements (snd (ReadElement tiny_expat parsed_doc_reader)) = [1, 2, 3, 4] \<and>
   mpStream (snd (ReadElement tiny_expat parsed_doc_reader)) = mpStream parsed_doc_reader"
proof -
  have q: "mElements parsed_doc_reader = 0 # [1, 2, 3, 4]"
    by (simp add: mElements_parsed_doc_reader)
  show ?thesis
    using wf_parsed_doc_reader q
      C10_ReadElement_on_queued_element [OF wf_parsed_doc_reader q, of tiny_expat tiny_expat]
    by simp
qed

end
